theory Spec2Isabelle
  imports Main "HOL-Library.Multiset" "HOL-Library.Sublist"
begin

section \<open>Data model\<close>

text \<open>
  A Go \<^verbatim>\<open>int\<close> is a 64-bit two's complement integer: a value in the range \<open>go_int\<close>.
  Its sums and differences wrap around: Go's \<^verbatim>\<open>a + b\<close> is \<open>wrap64 (a + b)\<close>.
\<close>

definition go_int :: "int \<Rightarrow> bool" where
  "go_int x \<longleftrightarrow> - (2 ^ 63) \<le> x \<and> x < 2 ^ 63"

definition wrap64 :: "int \<Rightarrow> int" where
  "wrap64 x = (x + 2 ^ 63) mod 2 ^ 64 - 2 ^ 63"

text \<open>
  The Go structs \<^verbatim>\<open>model.Order\<close> and \<^verbatim>\<open>model.DeliveryPlan\<close>, restricted to the fields
  that \<^verbatim>\<open>GetShippingOrders\<close> fills and that the planner reads. \<^verbatim>\<open>OrderID\<close> is an
  \<^verbatim>\<open>int64\<close>, on which the planner does no arithmetic; \<^verbatim>\<open>Weight\<close>, \<^verbatim>\<open>Value\<close>, the two
  totals and the capacity are Go \<^verbatim>\<open>int\<close>s.
\<close>

record Order =
  OrderID :: int
  Weight :: int
  Value :: int

record DeliveryPlan =
  RobotID :: string
  TotalWeight :: int
  TotalValue :: int
  Orders :: "Order list"

text \<open>
  The ways a call can fail: \<^verbatim>\<open>ctx.Err()\<close> of a cancelled or expired context, a failure
  reported by the database driver, the run-time panic of an index out of range, and the
  failure of \<^verbatim>\<open>make\<close> when a slice cannot be allocated (a run-time panic, or the fatal
  error of a runtime that is out of memory).
\<close>

datatype error = ContextErr | StorageErr | IndexPanic | AllocPanic

text \<open>
  The context is an external signal. \<open>ctx i\<close> tells whether \<^verbatim>\<open>ctx.Done()\<close> is closed at
  the moment the table-filling loop looks at it while processing item \<open>i\<close>.
\<close>

type_synonym ctx = "nat \<Rightarrow> bool"

text \<open>\<^verbatim>\<open>context.Background()\<close>: never cancelled.\<close>

definition Background :: ctx where
  "Background i = False"

text \<open>A context that is already cancelled whenever it is looked at.\<close>

definition Cancelled :: ctx where
  "Cancelled i = True"

text \<open>
  What the Go runtime can allocate is outside the program as well. \<open>mem rows cols\<close>
  tells whether it has room for the two tables of the planner, each of \<open>rows\<close> slices
  of \<open>cols\<close> cells. The two slices \<^verbatim>\<open>filtered\<close> and \<^verbatim>\<open>selected\<close>, of no more orders than
  the candidate list that the caller already holds, are taken to fit.
\<close>

type_synonym memory = "nat \<Rightarrow> nat \<Rightarrow> bool"

text \<open>A runtime with room for everything.\<close>

definition Roomy :: memory where
  "Roomy rows cols = True"

text \<open>
  A runtime that refuses only what no 64-bit Linux runtime can allocate, a slice of more
  than \<open>2 ^ 48\<close> bytes: a row of the table takes 8 bytes for each \<^verbatim>\<open>int\<close>, the outer
  slice 24 bytes for each row.
\<close>

definition AddressSpace :: memory where
  "AddressSpace rows cols \<longleftrightarrow> rows * 24 \<le> 2 ^ 48 \<and> cols * 8 \<le> 2 ^ 48"

section \<open>The selector: \<^verbatim>\<open>selectOrdersForDelivery\<close>\<close>

text \<open>\<^verbatim>\<open>model.DeliveryPlan{RobotID: robotID}\<close>: every other field has its zero value.\<close>

definition empty_plan :: "string \<Rightarrow> DeliveryPlan" where
  "empty_plan robotID = \<lparr>RobotID = robotID, TotalWeight = 0, TotalValue = 0, Orders = []\<rparr>"

text \<open>
  Step 1, the pre-filter loop. The accumulator is \<open>(filtered, totalWeight, totalValue)\<close>;
  the two totals are Go \<^verbatim>\<open>int\<close>s and wrap around.
\<close>

fun prefilter :: "int \<Rightarrow> Order list \<Rightarrow> Order list \<times> int \<times> int \<Rightarrow> Order list \<times> int \<times> int" where
  "prefilter robotCapacity [] acc = acc"
| "prefilter robotCapacity (ord # rest) (filtered, totalWeight, totalValue) =
     (if Weight ord \<le> 0 \<or> Value ord \<le> 0 then
        prefilter robotCapacity rest (filtered, totalWeight, totalValue)
      else if Weight ord > robotCapacity then
        prefilter robotCapacity rest (filtered, totalWeight, totalValue)
      else
        prefilter robotCapacity rest
          (filtered @ [ord], wrap64 (totalWeight + Weight ord), wrap64 (totalValue + Value ord)))"

text \<open>
  Step 3, the two tables \<^verbatim>\<open>dp\<close> and \<^verbatim>\<open>choice\<close>: \<open>n + 1\<close> rows, each made with
  \<^verbatim>\<open>make([]int, robotCapacity+1)\<close> and \<^verbatim>\<open>make([]bool, robotCapacity+1)\<close>. \<^verbatim>\<open>make\<close> panics
  when the length is negative, and when the runtime cannot allocate the slice.
\<close>

record tables =
  dp :: "int list list"
  choice :: "bool list list"

definition init_tables :: "nat \<Rightarrow> nat \<Rightarrow> tables" where
  "init_tables rows cols =
     \<lparr>dp = replicate rows (replicate cols 0),
      choice = replicate rows (replicate cols False)\<rparr>"

definition make_tables :: "memory \<Rightarrow> nat \<Rightarrow> int \<Rightarrow> error + tables" where
  "make_tables mem n robotCapacity =
     (let cols = wrap64 (robotCapacity + 1)
      in if cols < 0 \<or> \<not> mem (n + 1) (nat cols) then Inl AllocPanic
         else Inr (init_tables (n + 1) (nat cols)))"

text \<open>
  Go panics when a slice is indexed outside its bounds: \<open>in_table tb i c\<close> says that
  \<^verbatim>\<open>tb[i][c]\<close> is within the bounds of the table \<open>tb\<close>.
\<close>

definition in_table :: "'a list list \<Rightarrow> nat \<Rightarrow> int \<Rightarrow> bool" where
  "in_table tb i c \<longleftrightarrow> i < length tb \<and> 0 \<le> c \<and> nat c < length (tb ! i)"

text \<open>
  Step 4, the body of the inner loop: one cell \<open>(i, c)\<close> of both tables. It indexes
  \<^verbatim>\<open>dp[i-1][c]\<close>, \<^verbatim>\<open>dp[i-1][c-w]\<close> when \<^verbatim>\<open>w <= c\<close>, \<^verbatim>\<open>dp[i][c]\<close> and \<^verbatim>\<open>choice[i][c]\<close>.
  The difference \<^verbatim>\<open>c-w\<close> and the sum \<^verbatim>\<open>dp[i-1][c-w] + v\<close> are Go \<^verbatim>\<open>int\<close>s and wrap
  around.
\<close>

definition fill_cell :: "nat \<Rightarrow> int \<Rightarrow> int \<Rightarrow> nat \<Rightarrow> tables \<Rightarrow> error + tables" where
  "fill_cell i w v c t =
     (if \<not> (in_table (dp t) (i - 1) (int c) \<and>
             (if w \<le> int c then in_table (dp t) (i - 1) (wrap64 (int c - w)) else True) \<and>
             in_table (dp t) i (int c) \<and> in_table (choice t) i (int c))
      then Inl IndexPanic
      else
        (let best = dp t ! (i - 1) ! c;
             tk = (if w \<le> int c
                   then wrap64 (dp t ! (i - 1) ! nat (wrap64 (int c - w)) + v) else - 1)
         in if tk > best then
              Inr (t\<lparr>dp := (dp t)[i := (dp t ! i)[c := tk]],
                     choice := (choice t)[i := (choice t ! i)[c := True]]\<rparr>)
            else
              Inr (t\<lparr>dp := (dp t)[i := (dp t ! i)[c := best]],
                     choice := (choice t)[i := (choice t ! i)[c := False]]\<rparr>)))"

text \<open>
  The inner loop \<^verbatim>\<open>for c := 0; c <= robotCapacity; c++\<close>, entered at \<open>c\<close>. The counter
  does not wrap around: the loop is reached only with \<^verbatim>\<open>robotCapacity\<close> less than
  \<^verbatim>\<open>totalWeight\<close>, another Go \<^verbatim>\<open>int\<close>.
\<close>

function fill_row :: "nat \<Rightarrow> int \<Rightarrow> int \<Rightarrow> nat \<Rightarrow> nat \<Rightarrow> tables \<Rightarrow> error + tables" where
  "fill_row i w v cap c t =
     (if c \<le> cap then
        (case fill_cell i w v c t of
           Inl e \<Rightarrow> Inl e
         | Inr t' \<Rightarrow> fill_row i w v cap (Suc c) t')
      else Inr t)"
  by pat_completeness auto
termination
  by (relation "measure (\<lambda>(i, w, v, cap, c, t). Suc cap - c)") auto

declare fill_row.simps [simp del]

text \<open>
  The outer loop \<^verbatim>\<open>for i := 1; i <= n; i++\<close>, entered at \<open>i\<close>. Every 512th item it
  looks at the context and returns its error when the context is done.
\<close>

function fill_table :: "ctx \<Rightarrow> Order list \<Rightarrow> nat \<Rightarrow> nat \<Rightarrow> tables \<Rightarrow> error + tables" where
  "fill_table ctx orders cap i t =
     (if i \<le> length orders then
        (let ord = orders ! (i - 1); w = Weight ord; v = Value ord
         in if i mod 512 = 0 \<and> ctx i then Inl ContextErr
            else
              (case fill_row i w v cap 0 t of
                 Inl e \<Rightarrow> Inl e
               | Inr t' \<Rightarrow> fill_table ctx orders cap (Suc i) t'))
      else Inr t)"
  by pat_completeness auto
termination
  by (relation "measure (\<lambda>(ctx, orders, cap, i, t). Suc (length orders) - i)") auto

declare fill_table.simps [simp del]

text \<open>
  Step 5, the reconstruction loop \<^verbatim>\<open>for i := n; i >= 1; i--\<close>, entered at \<open>i\<close> with the
  state \<open>(capLeft, selected, totalSelectedWeight)\<close>. It indexes \<^verbatim>\<open>choice[i][capLeft]\<close>
  and \<^verbatim>\<open>orders[i-1]\<close>; \<^verbatim>\<open>capLeft\<close> and \<^verbatim>\<open>totalSelectedWeight\<close> are Go \<^verbatim>\<open>int\<close>s and
  wrap around.
\<close>

fun backtrack :: "Order list \<Rightarrow> bool list list \<Rightarrow> nat \<Rightarrow> int \<Rightarrow> Order list \<Rightarrow> int
    \<Rightarrow> error + Order list \<times> int" where
  "backtrack orders ch 0 capLeft selected totalSelectedWeight =
     Inr (selected, totalSelectedWeight)"
| "backtrack orders ch (Suc j) capLeft selected totalSelectedWeight =
     (if capLeft \<le> 0 then Inr (selected, totalSelectedWeight)
      else if \<not> in_table ch (Suc j) capLeft then Inl IndexPanic
      else if \<not> ch ! (Suc j) ! nat capLeft then
        backtrack orders ch j capLeft selected totalSelectedWeight
      else if \<not> j < length orders then Inl IndexPanic
      else
        (let ord = orders ! j
         in backtrack orders ch j (wrap64 (capLeft - Weight ord)) (selected @ [ord])
              (wrap64 (totalSelectedWeight + Weight ord))))"

definition selectOrdersForDelivery ::
    "memory \<Rightarrow> ctx \<Rightarrow> Order list \<Rightarrow> string \<Rightarrow> int \<Rightarrow> error + DeliveryPlan" where
  "selectOrdersForDelivery mem ctx orders robotID robotCapacity =
     (if robotCapacity \<le> 0 \<or> length orders = 0 then Inr (empty_plan robotID)
      else
        (case prefilter robotCapacity orders ([], 0, 0) of
           (filtered, totalWeight, totalValue) \<Rightarrow>
             if length filtered = 0 then Inr (empty_plan robotID)
             else if totalWeight \<le> robotCapacity then
               Inr \<lparr>RobotID = robotID, TotalWeight = totalWeight, TotalValue = totalValue,
                    Orders = filtered\<rparr>
             else
               (let n = length filtered; cap = nat robotCapacity
                in case make_tables mem n robotCapacity of
                     Inl e \<Rightarrow> Inl e
                   | Inr t0 \<Rightarrow>
                       (case fill_table ctx filtered cap 1 t0 of
                          Inl e \<Rightarrow> Inl e
                        | Inr t \<Rightarrow>
                            if \<not> in_table (dp t) n robotCapacity then Inl IndexPanic
                            else
                              (let bestValue = dp t ! n ! cap
                               in case backtrack filtered (choice t) n robotCapacity [] 0 of
                                    Inl e \<Rightarrow> Inl e
                                  | Inr (selected, totalSelectedWeight) \<Rightarrow>
                                      Inr \<lparr>RobotID = robotID,
                                           TotalWeight = totalSelectedWeight,
                                           TotalValue = bestValue, Orders = selected\<rparr>)))))"

section \<open>The order ledger\<close>

text \<open>
  The tables \<^verbatim>\<open>orders\<close> and \<^verbatim>\<open>products\<close> of \<^verbatim>\<open>init.sql\<close>, with the columns that the
  statements below read or write. A table is the list of its rows. The statements
  compare statuses with SQL's \<open>=\<close>; the statuses the program writes are fixed
  lower-case words, on which it is equality of strings.
\<close>

record order_row =
  order_id :: int
  product_id :: int
  shipped_status :: string

record product_row =
  prod_id :: int
  prod_value :: int
  prod_weight :: int

record database =
  orders_tbl :: "order_row list"
  products_tbl :: "product_row list"

text \<open>
  What the database driver answers is outside the program. \<open>select_err\<close> is the error of
  \<^verbatim>\<open>SelectContext\<close>, \<open>exec_err\<close> that of \<^verbatim>\<open>ExecContext\<close>, \<open>rows_err\<close> that of
  \<^verbatim>\<open>RowsAffected\<close> and \<open>tx_err\<close> that of opening or committing a transaction;
  \<open>None\<close> is Go's \<^verbatim>\<open>nil\<close>. (\<^verbatim>\<open>sqlx.In\<close> fails only on an empty slice or a wrong
  number of arguments; both callers exclude the empty slice first.)
\<close>

record faults =
  select_err :: "error option"
  exec_err :: "error option"
  rows_err :: "error option"
  tx_err :: "error option"

definition no_faults :: faults where
  "no_faults = \<lparr>select_err = None, exec_err = None, rows_err = None, tx_err = None\<rparr>"

definition all_faults :: faults where
  "all_faults = \<lparr>select_err = Some StorageErr, exec_err = Some StorageErr,
     rows_err = Some StorageErr, tx_err = Some StorageErr\<rparr>"

text \<open>
  \<^verbatim>\<open>UPDATE orders SET shipped_status = ? WHERE order_id IN (?)\<close>
\<close>

definition UpdateStatuses :: "faults \<Rightarrow> int list \<Rightarrow> string \<Rightarrow> database \<Rightarrow> database \<times> error option" where
  "UpdateStatuses f orderIDs newStatus db =
     (if length orderIDs = 0 then (db, None)
      else
        (case exec_err f of
           Some e \<Rightarrow> (db, Some e)
         | None \<Rightarrow>
             (db\<lparr>orders_tbl :=
                   map (\<lambda>r. if order_id r \<in> set orderIDs then r\<lparr>shipped_status := newStatus\<rparr> else r)
                     (orders_tbl db)\<rparr>,
              None)))"

text \<open>
  \<^verbatim>\<open>UPDATE orders SET shipped_status = ? WHERE shipped_status = ? AND order_id IN (?)\<close>.
  \<open>claimed\<close> is the \<^verbatim>\<open>WHERE\<close> clause. The count is the driver's \<^verbatim>\<open>RowsAffected\<close>, which
  for MySQL is the number of rows the statement changed: a row that already holds the
  new value is not counted.
\<close>

definition claimed :: "int list \<Rightarrow> string \<Rightarrow> order_row \<Rightarrow> bool" where
  "claimed orderIDs fromStatus r \<longleftrightarrow> shipped_status r = fromStatus \<and> order_id r \<in> set orderIDs"

definition rows_affected :: "int list \<Rightarrow> string \<Rightarrow> string \<Rightarrow> database \<Rightarrow> int" where
  "rows_affected orderIDs fromStatus newStatus db =
     int (length (filter (\<lambda>r. claimed orderIDs fromStatus r \<and> shipped_status r \<noteq> newStatus)
       (orders_tbl db)))"

definition UpdateStatusesIfCurrentStatus ::
    "faults \<Rightarrow> int list \<Rightarrow> string \<Rightarrow> string \<Rightarrow> database \<Rightarrow> database \<times> (error + int)" where
  "UpdateStatusesIfCurrentStatus f orderIDs fromStatus newStatus db =
     (if length orderIDs = 0 then (db, Inr 0)
      else
        (case exec_err f of
           Some e \<Rightarrow> (db, Inl e)
         | None \<Rightarrow>
             (let db' = db\<lparr>orders_tbl :=
                    map (\<lambda>r. if claimed orderIDs fromStatus r then r\<lparr>shipped_status := newStatus\<rparr> else r)
                      (orders_tbl db)\<rparr>
              in case rows_err f of
                   Some e \<Rightarrow> (db', Inl e)
                 | None \<Rightarrow> (db', Inr (rows_affected orderIDs fromStatus newStatus db)))))"

text \<open>
  \<^verbatim>\<open>SELECT o.order_id, p.weight, p.value FROM orders o JOIN products p
  ON o.product_id = p.product_id WHERE o.shipped_status = 'shipping'\<close>
\<close>

definition GetShippingOrders :: "faults \<Rightarrow> database \<Rightarrow> error + Order list" where
  "GetShippingOrders f db =
     (case select_err f of
        Some e \<Rightarrow> Inl e
      | None \<Rightarrow>
          Inr (concat (map (\<lambda>r. map (\<lambda>p. \<lparr>OrderID = order_id r, Weight = prod_weight p,
                                          Value = prod_value p\<rparr>)
                               (filter (\<lambda>p. product_id r = prod_id p) (products_tbl db)))
                 (filter (\<lambda>r. shipped_status r = ''shipping'') (orders_tbl db)))))"

text \<open>
  Modelled from the spec: \<^verbatim>\<open>repository.Store.ExecTx\<close> is not among the sources. The
  spec asks for a scoped transactional boundary that makes the write all-or-nothing: the
  function runs on the ledger, and its writes are kept only when neither it nor the
  transaction itself fails.
\<close>

definition ExecTx :: "faults \<Rightarrow> (database \<Rightarrow> database \<times> error option) \<Rightarrow> database
    \<Rightarrow> database \<times> error option" where
  "ExecTx f fn db =
     (case tx_err f of
        Some e \<Rightarrow> (db, Some e)
      | None \<Rightarrow> (case fn db of (db', Some e) \<Rightarrow> (db, Some e) | (db', None) \<Rightarrow> (db', None)))"

section \<open>The commit coordinator: \<^verbatim>\<open>GenerateDeliveryPlan\<close>\<close>

text \<open>
  The first half of \<^verbatim>\<open>GenerateDeliveryPlan\<close>, outside any transaction: one read of the
  ledger and the selection.
\<close>

definition plan_phase ::
    "faults \<Rightarrow> memory \<Rightarrow> ctx \<Rightarrow> string \<Rightarrow> int \<Rightarrow> database \<Rightarrow> error + DeliveryPlan" where
  "plan_phase f mem ctx robotID capacity db =
     (case GetShippingOrders f db of
        Inl e \<Rightarrow> Inl e
      | Inr orders \<Rightarrow> selectOrdersForDelivery mem ctx orders robotID capacity)"

text \<open>The second half: the transaction that holds the one conditional update.\<close>

definition commit_phase :: "faults \<Rightarrow> DeliveryPlan \<Rightarrow> database \<Rightarrow> database \<times> (error + DeliveryPlan)" where
  "commit_phase f plan db =
     (let orderIDs = map OrderID (Orders plan)
      in case ExecTx f (\<lambda>tx.
                case UpdateStatusesIfCurrentStatus f orderIDs ''shipping'' ''delivering'' tx of
                  (tx', Inl e) \<Rightarrow> (tx', Some e)
                | (tx', Inr rows) \<Rightarrow> (tx', None)) db of
           (db', Some e) \<Rightarrow> (db', Inl e)
         | (db', None) \<Rightarrow> (db', Inr plan))"

text \<open>
  The whole call. The read and the write are separate database operations, and other
  clients may write in between: \<open>others\<close> is what they do to the ledger after this
  call's read and before its transaction. The ledger returned is the one this call's
  own write leaves.

  Modelled from the spec: \<^verbatim>\<open>utils.WithTimeout\<close> is not among the sources. The spec
  has the whole call run under a deadline that the selector's loop and the database
  calls observe: the function runs with a context that carries the deadline, which is
  part of \<open>ctx\<close> here, and a database call that the deadline aborts answers with an
  error, which is part of the \<open>faults\<close>.
\<close>

definition GenerateDeliveryPlan ::
    "faults \<Rightarrow> memory \<Rightarrow> (database \<Rightarrow> database) \<Rightarrow> ctx \<Rightarrow> string \<Rightarrow> int
      \<Rightarrow> database \<Rightarrow> database \<times> (error + DeliveryPlan)" where
  "GenerateDeliveryPlan f mem others ctx robotID capacity db =
     (case plan_phase f mem ctx robotID capacity db of
        Inl e \<Rightarrow> (db, Inl e)
      | Inr plan \<Rightarrow>
          if length (Orders plan) = 0 then (db, Inr plan)
          else commit_phase f plan (others db))"

text \<open>\<^verbatim>\<open>UpdateOrderStatus\<close>: the unconditional write of one order's status.\<close>

definition UpdateOrderStatus :: "faults \<Rightarrow> int \<Rightarrow> string \<Rightarrow> database \<Rightarrow> database \<times> error option" where
  "UpdateOrderStatus f orderID newStatus db = UpdateStatuses f [orderID] newStatus db"

section \<open>Specification vocabulary\<close>

text \<open>The aggregate weight and value of a list of orders.\<close>

definition total_weight :: "Order list \<Rightarrow> int" where
  "total_weight os = sum_list (map Weight os)"

definition total_value :: "Order list \<Rightarrow> int" where
  "total_value os = sum_list (map Value os)"

text \<open>
  The condition under which the pre-filter loop keeps an order: neither of its two
  \<^verbatim>\<open>continue\<close> branches is taken.
\<close>

definition eligible :: "int \<Rightarrow> Order \<Rightarrow> bool" where
  "eligible robotCapacity ord \<longleftrightarrow> 0 < Weight ord \<and> 0 < Value ord \<and> Weight ord \<le> robotCapacity"

text \<open>
  The subsets of a candidate list are its subsequences (a candidate that occurs twice
  may be taken twice, each occurrence once). \<open>feasible\<close> lists those within the weight
  budget, \<open>optimum\<close> is the largest value among them.
\<close>

definition feasible :: "Order list \<Rightarrow> int \<Rightarrow> Order list list" where
  "feasible orders capacity = filter (\<lambda>s. total_weight s \<le> capacity) (subseqs orders)"

definition optimum :: "Order list \<Rightarrow> int \<Rightarrow> int" where
  "optimum orders capacity = Max (set (map total_value (feasible orders capacity)))"

text \<open>
  The recurrence that the table implements, on the list of the items processed so far
  with the last one first, in exact arithmetic: \<open>best\<close> is the intended content of a
  \<^verbatim>\<open>dp\<close> cell and \<open>took\<close> that of a \<^verbatim>\<open>choice\<close> cell.
\<close>

fun best :: "Order list \<Rightarrow> int \<Rightarrow> int" where
  "best [] c = 0"
| "best (x # xs) c =
     (let b = best xs c;
          tk = (if Weight x \<le> c then best xs (c - Weight x) + Value x else - 1)
      in if tk > b then tk else b)"

fun took :: "Order list \<Rightarrow> int \<Rightarrow> bool" where
  "took [] c = False"
| "took (x # xs) c =
     (let b = best xs c;
          tk = (if Weight x \<le> c then best xs (c - Weight x) + Value x else - 1)
      in tk > b)"

text \<open>
  The same recurrence as the code computes it, with the sum of Go \<^verbatim>\<open>int\<close>s wrapping
  around: \<open>bestw\<close> is what a \<^verbatim>\<open>dp\<close> cell really holds, \<open>tookw\<close> what a \<^verbatim>\<open>choice\<close> cell
  holds, and \<open>picksw\<close> is the list that the reconstruction loop picks.
\<close>

fun bestw :: "Order list \<Rightarrow> int \<Rightarrow> int" where
  "bestw [] c = 0"
| "bestw (x # xs) c =
     (let b = bestw xs c;
          tk = (if Weight x \<le> c then wrap64 (bestw xs (c - Weight x) + Value x) else - 1)
      in if tk > b then tk else b)"

fun tookw :: "Order list \<Rightarrow> int \<Rightarrow> bool" where
  "tookw [] c = False"
| "tookw (x # xs) c =
     (let b = bestw xs c;
          tk = (if Weight x \<le> c then wrap64 (bestw xs (c - Weight x) + Value x) else - 1)
      in tk > b)"

fun picksw :: "Order list \<Rightarrow> int \<Rightarrow> Order list" where
  "picksw [] c = []"
| "picksw (x # xs) c =
     (if c \<le> 0 then []
      else if tookw (x # xs) c then x # picksw xs (c - Weight x)
      else picksw xs c)"

text \<open>A running total of Go \<^verbatim>\<open>int\<close>s, as the loops accumulate it.\<close>

fun wsum :: "int \<Rightarrow> int list \<Rightarrow> int" where
  "wsum acc [] = acc"
| "wsum acc (x # xs) = wsum (wrap64 (acc + x)) xs"

text \<open>
  No total overflows: the weights and the values of the candidates that the pre-filter
  keeps add up to less than \<open>2 ^ 63\<close>.
\<close>

definition no_overflow :: "int \<Rightarrow> Order list \<Rightarrow> bool" where
  "no_overflow robotCapacity orders \<longleftrightarrow>
     total_weight (filter (eligible robotCapacity) orders) < 2 ^ 63 \<and>
     total_value (filter (eligible robotCapacity) orders) < 2 ^ 63"

definition cell_take :: "int list \<Rightarrow> int \<Rightarrow> int \<Rightarrow> nat \<Rightarrow> int" where
  "cell_take prev w v c = (if w \<le> int c then wrap64 (prev ! nat (int c - w) + v) else - 1)"

text \<open>
  The state of the inner loop at cell \<open>c\<close> of row \<open>i\<close>, relative to the tables \<open>t0\<close> it
  started from: only row \<open>i\<close> differs, and its cells below \<open>c\<close> are filled.
\<close>

definition row_upto :: "nat \<Rightarrow> int \<Rightarrow> int \<Rightarrow> nat \<Rightarrow> tables \<Rightarrow> tables \<Rightarrow> bool" where
  "row_upto i w v c t0 t \<longleftrightarrow>
     length (dp t) = length (dp t0) \<and> length (choice t) = length (choice t0) \<and>
     (\<forall>j. j \<noteq> i \<longrightarrow> dp t ! j = dp t0 ! j \<and> choice t ! j = choice t0 ! j) \<and>
     length (dp t ! i) = length (dp t0 ! i) \<and> length (choice t ! i) = length (choice t0 ! i) \<and>
     (\<forall>k<c. dp t ! i ! k = max (dp t0 ! (i - 1) ! k) (cell_take (dp t0 ! (i - 1)) w v k) \<and>
            choice t ! i ! k = (dp t0 ! (i - 1) ! k < cell_take (dp t0 ! (i - 1)) w v k))"

text \<open>
  The invariant of the outer loop on entry to row \<open>i\<close>: both tables have their
  dimensions, and every row below \<open>i\<close> holds the recurrence.
\<close>

definition tab_inv :: "Order list \<Rightarrow> nat \<Rightarrow> nat \<Rightarrow> tables \<Rightarrow> bool" where
  "tab_inv orders cap i t \<longleftrightarrow>
     length (dp t) = Suc (length orders) \<and> length (choice t) = Suc (length orders) \<and>
     (\<forall>j\<le>length orders. length (dp t ! j) = Suc cap \<and> length (choice t ! j) = Suc cap) \<and>
     (\<forall>j<i. \<forall>c\<le>cap. dp t ! j ! c = bestw (rev (take j orders)) (int c)) \<and>
     (\<forall>j. 0 < j \<and> j < i \<longrightarrow> (\<forall>c\<le>cap. choice t ! j ! c = tookw (rev (take j orders)) (int c)))"

text \<open>A small ledger: three orders wait for shipping, one is completed.\<close>

definition example_db :: database where
  "example_db =
     \<lparr>orders_tbl =
        [\<lparr>order_id = 1, product_id = 10, shipped_status = ''shipping''\<rparr>,
         \<lparr>order_id = 2, product_id = 11, shipped_status = ''shipping''\<rparr>,
         \<lparr>order_id = 3, product_id = 10, shipped_status = ''completed''\<rparr>,
         \<lparr>order_id = 4, product_id = 12, shipped_status = ''shipping''\<rparr>],
      products_tbl =
        [\<lparr>prod_id = 10, prod_value = 3, prod_weight = 2\<rparr>,
         \<lparr>prod_id = 11, prod_value = 4, prod_weight = 3\<rparr>,
         \<lparr>prod_id = 12, prod_value = 5, prod_weight = 4\<rparr>]\<rparr>"

text \<open>The candidate list of the first scenario of the specification.\<close>

definition example_orders :: "Order list" where
  "example_orders =
     [\<lparr>OrderID = 1, Weight = 2, Value = 3\<rparr>, \<lparr>OrderID = 2, Weight = 3, Value = 4\<rparr>,
      \<lparr>OrderID = 3, Weight = 4, Value = 5\<rparr>, \<lparr>OrderID = 4, Weight = 5, Value = 6\<rparr>]"

text \<open>A competing writer: it moves order 1 to \<^verbatim>\<open>delivering\<close> on its own.\<close>

definition rival :: "database \<Rightarrow> database" where
  "rival db = fst (UpdateOrderStatus no_faults 1 ''delivering'' db)"

section \<open>Two calls running concurrently\<close>

text \<open>
  A call of \<^verbatim>\<open>GenerateDeliveryPlan\<close> touches the ledger twice: the read of
  \<open>plan_phase\<close> and the transaction of \<open>commit_phase\<close>. Each is one database
  operation, which the database runs atomically; between the two the call holds no lock.
  Two calls running at the same time are therefore modelled by the interleavings of
  their operations on one ledger.
\<close>

record request =
  req_faults :: faults
  req_mem :: memory
  req_ctx :: ctx
  req_robotID :: string
  req_capacity :: int

text \<open>
  Where a call stands: before its read, between its read and its transaction (holding
  the plan it selected), or returned. A returned call also records the ids of the rows
  that its transaction transitioned.
\<close>

datatype call_state = Idle | Selected DeliveryPlan | Returned "error + DeliveryPlan" "int list"

text \<open>The ids of the rows whose status differs between two states of the ledger.\<close>

definition transitioned :: "database \<Rightarrow> database \<Rightarrow> int list" where
  "transitioned db db' =
     map (\<lambda>(r, r'). order_id r)
       (filter (\<lambda>(r, r'). shipped_status r \<noteq> shipped_status r')
          (zip (orders_tbl db) (orders_tbl db')))"

text \<open>One database operation of a call.\<close>

fun call_step :: "request \<Rightarrow> call_state \<Rightarrow> database \<Rightarrow> call_state \<times> database" where
  "call_step req Idle db =
     (case plan_phase (req_faults req) (req_mem req) (req_ctx req) (req_robotID req)
             (req_capacity req) db of
        Inl e \<Rightarrow> (Returned (Inl e) [], db)
      | Inr plan \<Rightarrow>
          if length (Orders plan) = 0 then (Returned (Inr plan) [], db) else (Selected plan, db))"
| "call_step req (Selected plan) db =
     (case commit_phase (req_faults req) plan db of
        (db', r) \<Rightarrow> (Returned r (transitioned db db'), db'))"
| "call_step req (Returned r ids) db = (Returned r ids, db)"

text \<open>A schedule says whose operation comes next.\<close>

datatype turn = First | Second

fun run :: "request \<Rightarrow> request \<Rightarrow> turn list \<Rightarrow> call_state \<times> call_state \<times> database
    \<Rightarrow> call_state \<times> call_state \<times> database" where
  "run a b [] s = s"
| "run a b (First # sched) (sa, sb, db) =
     (case call_step a sa db of (sa', db') \<Rightarrow> run a b sched (sa', sb, db'))"
| "run a b (Second # sched) (sa, sb, db) =
     (case call_step b sb db of (sb', db') \<Rightarrow> run a b sched (sa, sb', db'))"

fun claimed_ids :: "call_state \<Rightarrow> int list" where
  "claimed_ids (Returned r ids) = ids"
| "claimed_ids s = []"

text \<open>The positions of the rows whose status differs between two states of the ledger.\<close>

definition changed :: "database \<Rightarrow> database \<Rightarrow> nat set" where
  "changed db db' =
     {k. k < length (orders_tbl db) \<and>
         shipped_status (orders_tbl db' ! k) \<noteq> shipped_status (orders_tbl db ! k)}"

text \<open>The ledger after the conditional update of \<open>commit_phase\<close> has been applied.\<close>

definition write_of :: "int list \<Rightarrow> database \<Rightarrow> database" where
  "write_of ids db =
     db\<lparr>orders_tbl :=
          map (\<lambda>r. if claimed ids ''shipping'' r then r\<lparr>shipped_status := ''delivering''\<rparr> else r)
            (orders_tbl db)\<rparr>"

text \<open>
  The invariant of a concurrent run that started from the ledger \<open>db0\<close>: rows keep their
  ids, a status only ever changes to \<^verbatim>\<open>delivering\<close>, every changed row is counted by
  exactly one call, the calls' ids are disjoint, and no row with a claimed id is still
  \<^verbatim>\<open>shipping\<close>.
\<close>

definition conc_inv :: "database \<Rightarrow> call_state \<times> call_state \<times> database \<Rightarrow> bool" where
  "conc_inv db0 s \<longleftrightarrow>
     (case s of (sa, sb, db) \<Rightarrow>
        length (orders_tbl db) = length (orders_tbl db0) \<and>
        (\<forall>k<length (orders_tbl db0). order_id (orders_tbl db ! k) = order_id (orders_tbl db0 ! k)) \<and>
        (\<forall>k<length (orders_tbl db0).
           shipped_status (orders_tbl db ! k) \<noteq> shipped_status (orders_tbl db0 ! k) \<longrightarrow>
           shipped_status (orders_tbl db ! k) = ''delivering'') \<and>
        length (claimed_ids sa) + length (claimed_ids sb) = card (changed db0 db) \<and>
        set (claimed_ids sa) \<inter> set (claimed_ids sb) = {} \<and>
        (distinct (map order_id (orders_tbl db0)) \<longrightarrow>
           distinct (claimed_ids sa) \<and> distinct (claimed_ids sb)) \<and>
        (\<forall>k<length (orders_tbl db0).
           order_id (orders_tbl db ! k) \<in> set (claimed_ids sa) \<union> set (claimed_ids sb) \<longrightarrow>
           shipped_status (orders_tbl db ! k) \<noteq> ''shipping''))"

definition example_request :: "int \<Rightarrow> request" where
  "example_request capacity =
     \<lparr>req_faults = no_faults, req_mem = Roomy, req_ctx = Background, req_robotID = ''r'',
      req_capacity = capacity\<rparr>"

section \<open>Go integers\<close>

lemma wrap64_id: "go_int x \<Longrightarrow> wrap64 x = x"
  by (simp add: go_int_def wrap64_def)

lemma go_int_wrap64: "go_int (wrap64 x)"
proof -
  have "0 \<le> (x + 2 ^ 63) mod (2 ^ 64 :: int)" "(x + 2 ^ 63) mod (2 ^ 64 :: int) < 2 ^ 64"
    by simp_all
  then show ?thesis by (simp add: go_int_def wrap64_def)
qed

lemma go_int_wsum: "go_int a \<Longrightarrow> go_int (wsum a xs)"
  by (induction xs arbitrary: a) (simp_all add: go_int_wrap64)

lemma wsum_fits:
  "\<forall>x\<in>set xs. 0 \<le> x \<Longrightarrow> 0 \<le> a \<Longrightarrow> a + sum_list xs < 2 ^ 63 \<Longrightarrow> wsum a xs = a + sum_list xs"
proof (induction xs arbitrary: a)
  case Nil
  then show ?case by simp
next
  case (Cons x xs)
  have "0 \<le> sum_list xs" using Cons.prems(1) by (intro sum_list_nonneg) simp
  with Cons.prems have "go_int (a + x)" by (simp add: go_int_def)
  then have w: "wrap64 (a + x) = a + x" by (rule wrap64_id)
  from Cons.IH [of "a + x"] Cons.prems show ?case by (simp add: w add.assoc)
qed

text \<open>A running total from 0 is the sum, wrapped once.\<close>

lemma wrap64_add: "wrap64 (wrap64 a + b) = wrap64 (a + b)"
proof -
  have "(wrap64 a + b + 2 ^ 63) mod 2 ^ 64 = ((a + 2 ^ 63) mod 2 ^ 64 + b) mod 2 ^ 64"
    by (simp add: wrap64_def)
  also have "\<dots> = (a + 2 ^ 63 + b) mod 2 ^ 64"
    by (rule mod_add_left_eq)
  also have "a + 2 ^ 63 + b = a + b + 2 ^ 63"
    by simp
  finally show ?thesis by (simp add: wrap64_def)
qed

lemma wsum_wrap_acc: "wsum (wrap64 a) xs = wrap64 (a + sum_list xs)"
  by (induction xs arbitrary: a) (simp_all add: wrap64_add add.assoc)

lemma wsum_wrap: "wsum 0 xs = wrap64 (sum_list xs)"
  using wsum_wrap_acc [of 0 xs] by (simp add: wrap64_def)

section \<open>The pre-filter\<close>

lemma total_weight_simps [simp]:
  "total_weight [] = 0" "total_weight (x # xs) = Weight x + total_weight xs"
  "total_weight (xs @ ys) = total_weight xs + total_weight ys"
  by (simp_all add: total_weight_def)

lemma total_value_simps [simp]:
  "total_value [] = 0" "total_value (x # xs) = Value x + total_value xs"
  "total_value (xs @ ys) = total_value xs + total_value ys"
  by (simp_all add: total_value_def)

lemma prefilter_eq:
  "prefilter cap os (fl, tw, tv) =
     (fl @ filter (eligible cap) os,
      wsum tw (map Weight (filter (eligible cap) os)),
      wsum tv (map Value (filter (eligible cap) os)))"
  by (induction os arbitrary: fl tw tv) (auto simp: eligible_def)

section \<open>The table holds the recurrence\<close>

lemma row_upto_refl: "row_upto i w v 0 t t"
  by (simp add: row_upto_def)

lemma row_upto_step:
  assumes "row_upto i w v c t0 t" "0 < i" "i < length (dp t0)" "i < length (choice t0)"
    "c < length (dp t0 ! i)" "c < length (choice t0 ! i)" "c < length (dp t0 ! (i - 1))" "0 \<le> w"
    "int c < 2 ^ 63"
  shows "\<exists>t'. fill_cell i w v c t = Inr t' \<and> row_upto i w v (Suc c) t0 t'"
proof -
  have prev: "dp t ! (i - Suc 0) = dp t0 ! (i - Suc 0)"
    using assms by (simp add: row_upto_def)
  have len: "length (dp t) = length (dp t0)" "length (choice t) = length (choice t0)"
    "length (dp t ! i) = length (dp t0 ! i)" "length (choice t ! i) = length (choice t0 ! i)"
    using assms(1) by (simp_all add: row_upto_def)
  have old: "\<And>k. k < c \<Longrightarrow> dp t ! i ! k = max (dp t0 ! (i - 1) ! k) (cell_take (dp t0 ! (i - 1)) w v k)"
    "\<And>k. k < c \<Longrightarrow> choice t ! i ! k = (dp t0 ! (i - 1) ! k < cell_take (dp t0 ! (i - 1)) w v k)"
    "\<And>j. j \<noteq> i \<Longrightarrow> dp t ! j = dp t0 ! j" "\<And>j. j \<noteq> i \<Longrightarrow> choice t ! j = choice t0 ! j"
    using assms(1) by (simp_all add: row_upto_def)
  let ?val = "max (dp t0 ! (i - 1) ! c) (cell_take (dp t0 ! (i - 1)) w v c)"
  let ?ch = "dp t0 ! (i - 1) ! c < cell_take (dp t0 ! (i - 1)) w v c"
  let ?t' = "t\<lparr>dp := (dp t)[i := (dp t ! i)[c := ?val]], choice := (choice t)[i := (choice t ! i)[c := ?ch]]\<rparr>"
  have wr: "wrap64 (int c - w) = int c - w" if "w \<le> int c"
    using that assms(8,9) by (intro wrap64_id) (simp add: go_int_def)
  have "nat (int c - w) < length (dp t0 ! (i - Suc 0))" if "w \<le> int c"
    using that assms(7,8) by simp
  then have guard: "in_table (dp t) (i - Suc 0) (int c)"
    "w \<le> int c \<Longrightarrow> in_table (dp t) (i - Suc 0) (int c - w)"
    "in_table (dp t) i (int c)" "in_table (choice t) i (int c)"
    using assms(2-7) len prev by (simp_all add: in_table_def)
  have fc: "fill_cell i w v c t = Inr ?t'"
  proof (cases "w \<le> int c")
    case True
    with guard wr show ?thesis
      unfolding fill_cell_def by (simp add: Let_def prev cell_take_def max_def)
  next
    case False
    with guard show ?thesis
      unfolding fill_cell_def by (simp add: Let_def prev cell_take_def max_def)
  qed
  have "row_upto i w v (Suc c) t0 ?t'"
    unfolding row_upto_def
    using assms(2-6) len old by (simp add: nth_list_update less_Suc_eq)
  with fc show ?thesis by blast
qed

lemma row_upto_fill_row:
  "row_upto i w v c t0 t \<Longrightarrow> c \<le> Suc cap \<Longrightarrow> 0 < i \<Longrightarrow> i < length (dp t0) \<Longrightarrow>
   i < length (choice t0) \<Longrightarrow> length (dp t0 ! i) = Suc cap \<Longrightarrow> length (choice t0 ! i) = Suc cap \<Longrightarrow>
   length (dp t0 ! (i - 1)) = Suc cap \<Longrightarrow> 0 \<le> w \<Longrightarrow> int cap < 2 ^ 63 \<Longrightarrow>
   \<exists>t'. fill_row i w v cap c t = Inr t' \<and> row_upto i w v (Suc cap) t0 t'"
proof (induction i w v cap c t rule: fill_row.induct)
  case (1 i w v cap c t)
  show ?case
  proof (cases "c \<le> cap")
    case True
    with "1.prems"(10) have "int c < 2 ^ 63" by simp
    with row_upto_step [OF "1.prems"(1)] "1.prems"(2-) True
    obtain t1 where t1: "fill_cell i w v c t = Inr t1" "row_upto i w v (Suc c) t0 t1"
      by auto
    from "1.IH" [OF True t1(1) t1(2)] True "1.prems"(2-)
    obtain t' where "fill_row i w v cap (Suc c) t1 = Inr t'" "row_upto i w v (Suc cap) t0 t'"
      by auto
    with True t1(1) show ?thesis
      by (subst fill_row.simps) simp
  next
    case False
    with "1.prems" have "c = Suc cap" by simp
    with "1.prems" False show ?thesis
      by (subst fill_row.simps) simp
  qed
qed

lemma bestw_Cons_max:
  "bestw (x # xs) c =
     max (bestw xs c) (if Weight x \<le> c then wrap64 (bestw xs (c - Weight x) + Value x) else - 1)"
  by (simp add: Let_def max_def)

lemma bestw_nonneg: "0 \<le> bestw xs c"
proof (induction xs arbitrary: c)
  case Nil
  show ?case by simp
next
  case (Cons x xs)
  have "bestw xs c \<le> bestw (x # xs) c" unfolding bestw_Cons_max by simp
  with Cons [of c] show ?case by linarith
qed

lemma tookw_fits: "tookw (x # xs) c \<Longrightarrow> Weight x \<le> c"
proof (rule ccontr)
  assume "tookw (x # xs) c" "\<not> Weight x \<le> c"
  then have "- 1 > bestw xs c" by (simp add: Let_def)
  with bestw_nonneg [of xs c] show False by simp
qed

lemma bestw_small: "\<forall>x\<in>set xs. c < Weight x \<Longrightarrow> bestw xs c = 0"
proof (induction xs)
  case Nil
  show ?case by simp
next
  case (Cons x xs)
  then have "bestw xs c = 0" "\<not> Weight x \<le> c" by auto
  then show ?case by (simp add: Let_def)
qed

lemma tab_inv_init: "tab_inv orders cap 1 (init_tables (length orders + 1) (cap + 1))"
  by (simp add: tab_inv_def init_tables_def del: replicate.simps)

lemma tab_inv_step:
  assumes inv: "tab_inv orders cap (Suc j) t" and j: "j < length orders"
    and w: "0 \<le> Weight (orders ! j)" and cap: "int cap < 2 ^ 63"
  shows "\<exists>t'. fill_row (Suc j) (Weight (orders ! j)) (Value (orders ! j)) cap 0 t = Inr t' \<and>
           tab_inv orders cap (Suc (Suc j)) t'"
proof -
  let ?w = "Weight (orders ! j)" and ?v = "Value (orders ! j)"
  let ?xs = "rev (take j orders)"
  have dims: "length (dp t) = Suc (length orders)" "length (choice t) = Suc (length orders)"
    "\<And>k. k \<le> length orders \<Longrightarrow> length (dp t ! k) = Suc cap"
    "\<And>k. k \<le> length orders \<Longrightarrow> length (choice t ! k) = Suc cap"
    using inv by (simp_all add: tab_inv_def)
  have prevrow: "\<And>c. c \<le> cap \<Longrightarrow> dp t ! j ! c = bestw ?xs (int c)"
    using inv by (simp add: tab_inv_def)
  obtain t' where t': "fill_row (Suc j) ?w ?v cap 0 t = Inr t'"
    and ru: "row_upto (Suc j) ?w ?v (Suc cap) t t'"
    using row_upto_fill_row [OF row_upto_refl, of cap "Suc j" t ?w ?v] dims j w cap by auto
  have tk: "Suc j = length (take (Suc j) orders)" "rev (take (Suc j) orders) = orders ! j # ?xs"
    using j by (simp_all add: take_Suc_conv_app_nth)
  have ct: "cell_take (dp t ! j) ?w ?v c =
      (if ?w \<le> int c then wrap64 (bestw ?xs (int c - ?w) + ?v) else - 1)" if "c \<le> cap" for c
  proof (cases "?w \<le> int c")
    case True
    with w that have "nat (int c - ?w) \<le> cap" by simp
    from prevrow [OF this] True w show ?thesis by (simp add: cell_take_def)
  next
    case False
    then show ?thesis by (simp add: cell_take_def)
  qed
  have new_dp: "dp t' ! Suc j ! c = bestw (rev (take (Suc j) orders)) (int c)" if "c \<le> cap" for c
    using ru that by (simp add: row_upto_def tk(2) Let_def max_def ct prevrow)
  have new_ch: "choice t' ! Suc j ! c = tookw (rev (take (Suc j) orders)) (int c)" if "c \<le> cap" for c
    using ru that by (simp add: row_upto_def tk(2) Let_def ct prevrow)
  have same: "\<And>k. k \<noteq> Suc j \<Longrightarrow> dp t' ! k = dp t ! k" "\<And>k. k \<noteq> Suc j \<Longrightarrow> choice t' ! k = choice t ! k"
    "length (dp t') = length (dp t)" "length (choice t') = length (choice t)"
    "length (dp t' ! Suc j) = length (dp t ! Suc j)"
    "length (choice t' ! Suc j) = length (choice t ! Suc j)"
    using ru by (simp_all add: row_upto_def)
  have old_dp: "dp t' ! k ! c = bestw (rev (take k orders)) (int c)" if "k < Suc j" "c \<le> cap" for k c
    using inv that same(1) [of k] by (simp add: tab_inv_def)
  have old_ch: "choice t' ! k ! c = tookw (rev (take k orders)) (int c)" if "0 < k" "k < Suc j" "c \<le> cap" for k c
    using inv that same(2) [of k] by (simp add: tab_inv_def)
  have len_dp: "length (dp t' ! k) = Suc cap" if "k \<le> length orders" for k
    using same(1) [of k] same(5) dims(3) [OF that] by (cases "k = Suc j") simp_all
  have len_ch: "length (choice t' ! k) = Suc cap" if "k \<le> length orders" for k
    using same(2) [of k] same(6) dims(4) [OF that] by (cases "k = Suc j") simp_all
  have "tab_inv orders cap (Suc (Suc j)) t'"
    unfolding tab_inv_def
  proof (intro conjI allI impI)
    fix k c assume "k < Suc (Suc j)" "c \<le> cap"
    then show "dp t' ! k ! c = bestw (rev (take k orders)) (int c)"
      using new_dp old_dp by (cases "k = Suc j") auto
  next
    fix k c assume "0 < k \<and> k < Suc (Suc j)" "c \<le> cap"
    then show "choice t' ! k ! c = tookw (rev (take k orders)) (int c)"
      using new_ch old_ch by (cases "k = Suc j") auto
  qed (use same dims len_dp len_ch in simp_all)
  with t' show ?thesis by blast
qed

text \<open>
  From a table that holds the invariant, the outer loop either meets a set cancellation
  signal at a multiple of 512 and returns the context's error, or completes the table.
  It never indexes out of range.
\<close>

lemma fill_table_inv:
  "tab_inv orders cap i t \<Longrightarrow> 0 < i \<Longrightarrow> \<forall>x\<in>set orders. 0 \<le> Weight x \<Longrightarrow> int cap < 2 ^ 63 \<Longrightarrow>
   (if \<exists>j. i \<le> j \<and> j \<le> length orders \<and> j mod 512 = 0 \<and> ctx j
    then fill_table ctx orders cap i t = Inl ContextErr
    else \<exists>t'. fill_table ctx orders cap i t = Inr t' \<and> tab_inv orders cap (Suc (length orders)) t')"
proof (induction ctx orders cap i t rule: fill_table.induct)
  case (1 ctx orders cap i t)
  let ?ex = "\<lambda>i. \<exists>j. i \<le> j \<and> j \<le> length orders \<and> j mod 512 = 0 \<and> ctx j"
  show ?case
  proof (cases "i \<le> length orders")
    case False
    then have "fill_table ctx orders cap i t = Inr t" by (subst fill_table.simps) simp
    moreover have "Suc (length orders) \<le> i" "\<not> ?ex i" using False by auto
    ultimately show ?thesis using "1.prems"(1) by (auto simp: tab_inv_def)
  next
    case le: True
    show ?thesis
    proof (cases "i mod 512 = 0 \<and> ctx i")
      case True
      with le have "fill_table ctx orders cap i t = Inl ContextErr" "?ex i"
        by (subst fill_table.simps, auto)
      then show ?thesis by simp
    next
      case nc: False
      obtain j where j: "i = Suc j" using "1.prems"(2) by (cases i) auto
      have "0 \<le> Weight (orders ! j)" using "1.prems"(3) le j by simp
      from tab_inv_step [OF _ _ this "1.prems"(4), of t] "1.prems"(1) le j
      obtain t1 where t1: "fill_row i (Weight (orders ! (i - 1))) (Value (orders ! (i - 1))) cap 0 t = Inr t1"
        "tab_inv orders cap (Suc i) t1" by auto
      have unf: "fill_table ctx orders cap i t = fill_table ctx orders cap (Suc i) t1"
        using le nc t1(1) by (subst fill_table.simps) (auto simp: Let_def)
      have ex: "?ex i \<longleftrightarrow> ?ex (Suc i)"
        using nc by (metis Suc_leI le_neq_implies_less Suc_leD)
      from "1.IH" [OF le refl refl refl nc t1(1) t1(2) _ "1.prems"(3,4)]
      show ?thesis unfolding unf ex by simp
    qed
  qed
qed

lemma fill_table_end: "\<not> i \<le> length orders \<Longrightarrow> fill_table ctx orders cap i t = Inr t"
  by (subst fill_table.simps) simp

lemma fill_table_next:
  "i \<le> length orders \<Longrightarrow> \<not> (i mod 512 = 0 \<and> ctx i) \<Longrightarrow>
   fill_table ctx orders cap i t =
     (case fill_row i (Weight (orders ! (i - 1))) (Value (orders ! (i - 1))) cap 0 t of
        Inl e \<Rightarrow> Inl e
      | Inr t' \<Rightarrow> fill_table ctx orders cap (Suc i) t')"
  apply (subst fill_table.simps)
  apply (simp only: Let_def if_True if_False)
  done

lemma fill_table_poll:
  "i \<le> length orders \<Longrightarrow> i mod 512 = 0 \<Longrightarrow> ctx i \<Longrightarrow> fill_table ctx orders cap i t = Inl ContextErr"
  by (subst fill_table.simps) (simp add: Let_def)

lemma fill_table_no_cancel:
  "\<not> (\<exists>j. i \<le> j \<and> j \<le> length orders \<and> j mod 512 = 0 \<and> ctx j) \<Longrightarrow>
   fill_table ctx orders cap i t = fill_table Background orders cap i t"
proof (induction ctx orders cap i t rule: fill_table.induct)
  case (1 ctx orders cap i t)
  show ?case
  proof (cases "i \<le> length orders")
    case False
    then show ?thesis by (simp add: fill_table_end)
  next
    case le: True
    have nc: "\<not> (i mod 512 = 0 \<and> ctx i)"
    proof
      assume "i mod 512 = 0 \<and> ctx i"
      with le have "\<exists>j. i \<le> j \<and> j \<le> length orders \<and> j mod 512 = 0 \<and> ctx j"
        by (intro exI [of _ i]) simp
      with "1.prems" show False by contradiction
    qed
    have ncB: "\<not> (i mod 512 = 0 \<and> Background i)" by (simp add: Background_def)
    let ?r = "fill_row i (Weight (orders ! (i - 1))) (Value (orders ! (i - 1))) cap 0 t"
    show ?thesis
    proof (cases ?r)
      case (Inl e)
      then show ?thesis
        unfolding fill_table_next [where ctx = ctx and cap = cap and t = t, OF le nc]
          fill_table_next [where ctx = Background and cap = cap and t = t, OF le ncB] by simp
    next
      case (Inr t1)
      have "\<not> (\<exists>j. Suc i \<le> j \<and> j \<le> length orders \<and> j mod 512 = 0 \<and> ctx j)"
        using "1.prems" by (auto dest: Suc_leD)
      from "1.IH" [OF le refl refl refl nc Inr this] Inr show ?thesis
        unfolding fill_table_next [where ctx = ctx and cap = cap and t = t, OF le nc]
          fill_table_next [where ctx = Background and cap = cap and t = t, OF le ncB] by simp
    qed
  qed
qed

lemma backtrack_picks:
  "(\<forall>j. 0 < j \<and> j \<le> i \<longrightarrow> (\<forall>c\<le>cap. ch ! j ! c = tookw (rev (take j orders)) (int c))) \<Longrightarrow>
   (\<forall>j\<le>i. j < length ch \<and> length (ch ! j) = Suc cap) \<Longrightarrow>
   i \<le> length orders \<Longrightarrow> 0 \<le> capLeft \<Longrightarrow> capLeft \<le> int cap \<Longrightarrow> int cap < 2 ^ 63 \<Longrightarrow>
   \<forall>x\<in>set orders. 0 \<le> Weight x \<Longrightarrow>
   backtrack orders ch i capLeft sel tsw =
     Inr (sel @ picksw (rev (take i orders)) capLeft,
          wsum tsw (map Weight (picksw (rev (take i orders)) capLeft)))"
proof (induction i arbitrary: capLeft sel tsw)
  case 0
  then show ?case by simp
next
  case (Suc j)
  let ?x = "orders ! j" and ?xs = "rev (take j orders)"
  have j: "j < length orders" using Suc.prems(3) by simp
  have tk: "rev (take (Suc j) orders) = ?x # ?xs"
    using j by (simp add: take_Suc_conv_app_nth)
  have chj: "\<forall>k. 0 < k \<and> k \<le> j \<longrightarrow> (\<forall>c\<le>cap. ch ! k ! c = tookw (rev (take k orders)) (int c))"
    using Suc.prems(1) by simp
  have dimj: "\<forall>k\<le>j. k < length ch \<and> length (ch ! k) = Suc cap"
    using Suc.prems(2) by simp
  show ?case
  proof (cases "capLeft \<le> 0")
    case True
    then show ?thesis unfolding tk by simp
  next
    case pos: False
    then have ncap: "nat capLeft \<le> cap" "int (nat capLeft) = capLeft"
      using Suc.prems(5) by simp_all
    have inr: "in_table ch (Suc j) capLeft"
      using Suc.prems(2) pos ncap(1) by (simp add: in_table_def)
    have ch: "ch ! Suc j ! nat capLeft = tookw (?x # ?xs) capLeft"
      using Suc.prems(1) ncap tk by (metis zero_less_Suc order_refl)
    show ?thesis
    proof (cases "tookw (?x # ?xs) capLeft")
      case False
      have chF: "\<not> ch ! Suc j ! nat capLeft" using ch False by simp
      have bt: "backtrack orders ch (Suc j) capLeft sel tsw = backtrack orders ch j capLeft sel tsw"
        using pos chF inr by simp
      have pk: "picksw (?x # ?xs) capLeft = picksw ?xs capLeft"
        using pos False by simp
      from Suc.IH [OF chj dimj _ Suc.prems(4,5,6,7), of sel tsw] j
      show ?thesis unfolding bt tk pk by simp
    next
      case True
      have fits: "Weight ?x \<le> capLeft" using True by (rule tookw_fits)
      have wnn: "0 \<le> Weight ?x" using Suc.prems(7) j by simp
      have rng: "0 \<le> capLeft - Weight ?x" "capLeft - Weight ?x \<le> int cap"
        using fits wnn Suc.prems(5) by simp_all
      with Suc.prems(6) have "go_int (capLeft - Weight ?x)" by (simp add: go_int_def)
      then have wr: "wrap64 (capLeft - Weight ?x) = capLeft - Weight ?x" by (rule wrap64_id)
      have chT: "ch ! Suc j ! nat capLeft" using ch True by simp
      have bt: "backtrack orders ch (Suc j) capLeft sel tsw =
          backtrack orders ch j (capLeft - Weight ?x) (sel @ [?x]) (wrap64 (tsw + Weight ?x))"
        using pos chT inr j by (simp add: Let_def wr)
      have pk: "picksw (?x # ?xs) capLeft = ?x # picksw ?xs (capLeft - Weight ?x)"
        using pos True by simp
      from Suc.IH [OF chj dimj _ rng Suc.prems(6,7), of "sel @ [?x]" "wrap64 (tsw + Weight ?x)"] j
      show ?thesis unfolding bt tk pk by simp
    qed
  qed
qed

section \<open>The ways the selector returns\<close>

text \<open>
  What the selector returns, for every input: the empty plan when the capacity is not
  positive or the pre-filter keeps nothing; all that the pre-filter kept, with the two
  running totals, when the running total of the weights is within the capacity; and
  otherwise the panic of \<^verbatim>\<open>make\<close> when the runtime has no room for the tables, the
  context's error when the signal is set at a polled item, or else the plan that the
  reconstruction picks, with the last cell of the table as its value. It never indexes
  out of range.
\<close>

lemma select_eq:
  fixes orders :: "Order list" and cap :: int
  defines "fl \<equiv> filter (eligible cap) orders"
  shows "selectOrdersForDelivery mem ctx orders robotID cap =
     (if cap \<le> 0 \<or> fl = [] then Inr (empty_plan robotID)
      else if wsum 0 (map Weight fl) \<le> cap then
        Inr \<lparr>RobotID = robotID, TotalWeight = wsum 0 (map Weight fl),
             TotalValue = wsum 0 (map Value fl), Orders = fl\<rparr>
      else if \<not> mem (length fl + 1) (nat (cap + 1)) then Inl AllocPanic
      else if \<exists>j. 1 \<le> j \<and> j \<le> length fl \<and> j mod 512 = 0 \<and> ctx j then Inl ContextErr
      else Inr \<lparr>RobotID = robotID, TotalWeight = wsum 0 (map Weight (picksw (rev fl) cap)),
                TotalValue = bestw (rev fl) cap, Orders = picksw (rev fl) cap\<rparr>)"
proof -
  let ?tw = "wsum 0 (map Weight fl)" and ?n = "length fl" and ?cap = "nat cap"
  let ?ex = "\<exists>j. 1 \<le> j \<and> j \<le> length fl \<and> j mod 512 = 0 \<and> ctx j"
  consider "cap \<le> 0 \<or> fl = []" | "0 < cap" "fl \<noteq> []" "?tw \<le> cap"
    | "0 < cap" "fl \<noteq> []" "cap < ?tw" by linarith
  then show ?thesis
  proof cases
    case 1
    then show ?thesis
      by (auto simp: selectOrdersForDelivery_def prefilter_eq fl_def)
  next
    case 2
    then have "orders \<noteq> []" by (auto simp: fl_def)
    with 2 show ?thesis
      by (simp add: selectOrdersForDelivery_def prefilter_eq fl_def [symmetric])
  next
    case 3
    then have ne: "orders \<noteq> []" by (auto simp: fl_def)
    have "go_int ?tw" by (rule go_int_wsum) (simp add: go_int_def)
    with 3 have rng: "go_int (cap + 1)" "int ?cap < 2 ^ 63" by (simp_all add: go_int_def)
    have cols: "wrap64 (cap + 1) = cap + 1" using rng(1) by (rule wrap64_id)
    have nc: "nat (cap + 1) = ?cap + 1" using 3(1) by simp
    have wnn: "\<forall>x\<in>set fl. 0 \<le> Weight x" by (auto simp: fl_def eligible_def)
    let ?ft = "fill_table ctx fl ?cap 1 (init_tables (?n + 1) (?cap + 1))"
    have sel: "selectOrdersForDelivery mem ctx orders robotID cap =
      (if \<not> mem (?n + 1) (nat (cap + 1)) then Inl AllocPanic
       else
        (case ?ft of
           Inl e \<Rightarrow> Inl e
         | Inr t \<Rightarrow>
             if \<not> in_table (dp t) ?n cap then Inl IndexPanic
             else
               (let bestValue = dp t ! ?n ! ?cap
                in case backtrack fl (choice t) ?n cap [] 0 of
                     Inl e \<Rightarrow> Inl e
                   | Inr (selected, totalSelectedWeight) \<Rightarrow>
                       Inr \<lparr>RobotID = robotID, TotalWeight = totalSelectedWeight,
                            TotalValue = bestValue, Orders = selected\<rparr>)))"
      using 3 ne
      by (simp add: selectOrdersForDelivery_def prefilter_eq fl_def [symmetric] Let_def
          make_tables_def cols nc)
    have ft: "if ?ex then ?ft = Inl ContextErr
      else \<exists>t'. ?ft = Inr t' \<and> tab_inv fl ?cap (Suc ?n) t'"
      by (rule fill_table_inv [OF tab_inv_init _ wnn rng(2)]) simp
    show ?thesis
    proof (cases "mem (?n + 1) (nat (cap + 1))")
      case False
      with 3 show ?thesis unfolding sel by simp
    next
      case room: True
      show ?thesis
      proof (cases ?ex)
        case True
        with ft have "?ft = Inl ContextErr" by (simp only: if_True)
        with 3 room True show ?thesis unfolding sel by simp
      next
        case False
        with ft have "\<exists>t'. ?ft = Inr t' \<and> tab_inv fl ?cap (Suc ?n) t'" by (simp only: if_False)
        then obtain t where t: "?ft = Inr t" and inv: "tab_inv fl ?cap (Suc ?n) t" by blast
        have bv: "dp t ! ?n ! ?cap = bestw (rev fl) cap"
          using inv 3(1) by (simp add: tab_inv_def)
        have it: "in_table (dp t) ?n cap"
          using inv 3(1) by (simp add: tab_inv_def in_table_def)
        have ch: "\<forall>j. 0 < j \<and> j \<le> ?n \<longrightarrow> (\<forall>c\<le>?cap. choice t ! j ! c = tookw (rev (take j fl)) (int c))"
          using inv by (simp add: tab_inv_def)
        have dim: "\<forall>j\<le>?n. j < length (choice t) \<and> length (choice t ! j) = Suc ?cap"
          using inv by (simp add: tab_inv_def)
        have bt: "backtrack fl (choice t) ?n cap [] 0 =
            Inr ([] @ picksw (rev (take ?n fl)) cap, wsum 0 (map Weight (picksw (rev (take ?n fl)) cap)))"
          by (rule backtrack_picks [OF ch dim _ _ _ rng(2) wnn]) (use 3(1) in simp_all)
        have "selectOrdersForDelivery mem ctx orders robotID cap =
            Inr \<lparr>RobotID = robotID, TotalWeight = wsum 0 (map Weight (picksw (rev fl) cap)),
                 TotalValue = bestw (rev fl) cap, Orders = picksw (rev fl) cap\<rparr>"
          unfolding sel using room t it bt bv by (simp add: Let_def)
        with 3 room False show ?thesis by simp
      qed
    qed
  qed
qed

section \<open>Subsequences and totals\<close>

lemma subseq_Cons_right:
  "subseq s (x # xs) \<longleftrightarrow> subseq s xs \<or> (\<exists>s'. s = x # s' \<and> subseq s' xs)"
proof (cases s)
  case Nil
  then show ?thesis by simp
next
  case (Cons y ys)
  then show ?thesis by (cases "x = y") (auto dest: subseq_Cons')
qed

lemma subseq_Nil_iff [simp]: "subseq s [] \<longleftrightarrow> s = []"
  by (auto dest: list_emb_Nil2)

lemma subseq_rev: "subseq xs ys \<Longrightarrow> subseq (rev xs) (rev ys)"
proof (induction ys arbitrary: xs)
  case Nil
  then show ?case by simp
next
  case (Cons y ys)
  from Cons.prems consider "subseq xs ys" | s' where "xs = y # s'" "subseq s' ys"
    unfolding subseq_Cons_right by blast
  then show ?case
  proof cases
    case 1
    then have "subseq (rev xs) (rev ys)" by (rule Cons.IH)
    then show ?thesis by (simp add: subseq_rev_drop_many)
  next
    case 2
    then have "subseq (rev s') (rev ys)" using Cons.IH by blast
    with 2 show ?thesis by simp
  qed
qed

lemma subseq_mset_subset: "subseq xs ys \<Longrightarrow> mset xs \<subseteq># mset ys"
proof (induction ys arbitrary: xs)
  case Nil
  then show ?case by simp
next
  case (Cons y ys)
  from Cons.prems consider "subseq xs ys" | s' where "xs = y # s'" "subseq s' ys"
    unfolding subseq_Cons_right by blast
  then show ?case
  proof cases
    case 1
    then have "mset xs \<subseteq># mset ys" by (rule Cons.IH)
    then have "count (mset xs) a \<le> count (add_mset y (mset ys)) a" for a
      using mset_subset_eq_count [of "mset xs" "mset ys" a] by simp
    then show ?thesis by (auto intro: mset_subset_eqI)
  next
    case 2
    then have "mset s' \<subseteq># mset ys" using Cons.IH by blast
    with 2 show ?thesis by simp
  qed
qed

lemma subseq_set_subset: "subseq xs ys \<Longrightarrow> set xs \<subseteq> set ys"
  by (auto elim: list_emb_set)

lemma subseq_distinct: "subseq xs ys \<Longrightarrow> distinct ys \<Longrightarrow> distinct xs"
  using subseqs_distinctD [of xs ys] by simp

lemma total_rev [simp]: "total_weight (rev s) = total_weight s" "total_value (rev s) = total_value s"
  by (induction s) simp_all

lemma total_weight_nonneg: "\<forall>x\<in>set s. 0 \<le> Weight x \<Longrightarrow> 0 \<le> total_weight s"
  by (induction s) auto

lemma total_value_nonneg: "\<forall>x\<in>set s. 0 \<le> Value x \<Longrightarrow> 0 \<le> total_value s"
  by (induction s) auto

lemma weight_le_total: "\<forall>x\<in>set s. 0 \<le> Weight x \<Longrightarrow> y \<in> set s \<Longrightarrow> Weight y \<le> total_weight s"
proof (induction s)
  case Nil
  then show ?case by simp
next
  case (Cons x s)
  then have "0 \<le> total_weight s" "0 \<le> Weight x" by (simp_all add: total_weight_nonneg)
  with Cons show ?case by auto
qed

lemma total_weight_filter_le: "\<forall>x\<in>set s. 0 \<le> Weight x \<Longrightarrow> total_weight (filter P s) \<le> total_weight s"
  by (induction s) auto

lemma total_value_filter_ge: "\<forall>x\<in>set s. \<not> P x \<longrightarrow> Value x \<le> 0 \<Longrightarrow> total_value s \<le> total_value (filter P s)"
  by (induction s) auto

lemma subseq_value_le: "subseq s xs \<Longrightarrow> \<forall>x\<in>set xs. 0 \<le> Value x \<Longrightarrow> total_value s \<le> total_value xs"
proof (induction xs arbitrary: s)
  case Nil
  then show ?case by simp
next
  case (Cons x xs)
  from Cons.prems(1) consider "subseq s xs" | s' where "s = x # s'" "subseq s' xs"
    unfolding subseq_Cons_right by blast
  then show ?case
  proof cases
    case 1
    with Cons have "total_value s \<le> total_value xs" by simp
    with Cons.prems(2) show ?thesis by simp
  next
    case 2
    with Cons have "total_value s' \<le> total_value xs" by simp
    with 2 show ?thesis by simp
  qed
qed

lemma total_value_filter_le: "\<forall>x\<in>set s. 0 \<le> Value x \<Longrightarrow> total_value (filter P s) \<le> total_value s"
  by (induction s) auto

section \<open>The recurrence computes the optimum\<close>

lemma best_Cons_max:
  "best (x # xs) c = max (best xs c) (if Weight x \<le> c then best xs (c - Weight x) + Value x else - 1)"
  by (simp add: Let_def max_def)

lemma best_nonneg: "0 \<le> best xs c"
proof (induction xs arbitrary: c)
  case Nil
  show ?case by simp
next
  case (Cons x xs)
  have "best xs c \<le> best (x # xs) c" unfolding best_Cons_max by simp
  with Cons [of c] show ?case by linarith
qed

lemma best_bounds: "\<forall>x\<in>set xs. 0 \<le> Value x \<Longrightarrow> 0 \<le> best xs c \<and> best xs c \<le> total_value xs"
proof (induction xs arbitrary: c)
  case Nil
  show ?case by simp
next
  case (Cons x xs)
  then have v: "0 \<le> Value x" and ih: "\<And>c. 0 \<le> best xs c \<and> best xs c \<le> total_value xs"
    by simp_all
  from ih [of c] ih [of "c - Weight x"] v show ?case
    using best_nonneg [of "x # xs" c] unfolding best_Cons_max by auto
qed

lemma best_small: "\<forall>x\<in>set xs. c < Weight x \<Longrightarrow> best xs c = 0"
proof (induction xs)
  case Nil
  show ?case by simp
next
  case (Cons x xs)
  then have "best xs c = 0" "\<not> Weight x \<le> c" by auto
  then show ?case by (simp add: Let_def)
qed

lemma best_upper:
  "subseq s xs \<Longrightarrow> \<forall>x\<in>set xs. 0 \<le> Weight x \<Longrightarrow> total_weight s \<le> c \<Longrightarrow> total_value s \<le> best xs c"
proof (induction xs arbitrary: s c)
  case Nil
  then show ?case by simp
next
  case (Cons x xs)
  have nn: "\<forall>y\<in>set xs. 0 \<le> Weight y" using Cons.prems(2) by simp
  from Cons.prems(1) consider "subseq s xs" | s' where "s = x # s'" "subseq s' xs"
    unfolding subseq_Cons_right by blast
  then show ?case
  proof cases
    case 1
    from Cons.IH [OF 1 nn Cons.prems(3)] show ?thesis
      unfolding best_Cons_max by simp
  next
    case 2
    have "set s' \<subseteq> set xs" using 2(2) by (rule subseq_set_subset)
    with nn have "0 \<le> total_weight s'" by (intro total_weight_nonneg) auto
    with 2(1) Cons.prems(3) have fits: "Weight x \<le> c" "total_weight s' \<le> c - Weight x" by simp_all
    from Cons.IH [OF 2(2) nn fits(2)] 2(1) fits(1) show ?thesis
      unfolding best_Cons_max by simp
  qed
qed

lemma best_attained:
  "0 \<le> c \<Longrightarrow> \<exists>s. subseq s xs \<and> total_weight s \<le> c \<and> total_value s = best xs c"
proof (induction xs arbitrary: c)
  case Nil
  then show ?case by simp
next
  case (Cons x xs)
  show ?case
  proof (cases "took (x # xs) c")
    case False
    then have b: "best (x # xs) c = best xs c" by (simp add: Let_def)
    from Cons.IH [OF Cons.prems] obtain s where "subseq s xs" "total_weight s \<le> c"
      "total_value s = best xs c" by blast
    then show ?thesis unfolding b by (intro exI [of _ s]) (simp add: subseq_Cons_right)
  next
    case True
    have fits: "Weight x \<le> c"
    proof (rule ccontr)
      assume "\<not> Weight x \<le> c"
      with True have "- 1 > best xs c" by (simp add: Let_def)
      with best_nonneg [of xs c] show False by simp
    qed
    with True have b: "best (x # xs) c = best xs (c - Weight x) + Value x" by (simp add: Let_def)
    from fits have "0 \<le> c - Weight x" by simp
    from Cons.IH [OF this] obtain s where "subseq s xs" "total_weight s \<le> c - Weight x"
      "total_value s = best xs (c - Weight x)" by blast
    then show ?thesis unfolding b by (intro exI [of _ "x # s"]) simp
  qed
qed

lemma optimum_eqI:
  assumes "subseq s xs" "total_weight s \<le> c" "total_value s = m"
    and "\<And>s'. subseq s' xs \<Longrightarrow> total_weight s' \<le> c \<Longrightarrow> total_value s' \<le> m"
  shows "optimum xs c = m"
  unfolding optimum_def
proof (rule Max_eqI)
  show "finite (set (map total_value (feasible xs c)))" by simp
  show "m \<in> set (map total_value (feasible xs c))"
    using assms(1-3) by (auto simp: feasible_def)
  fix y assume "y \<in> set (map total_value (feasible xs c))"
  then show "y \<le> m" using assms(4) by (auto simp: feasible_def)
qed

lemma best_optimum: "0 \<le> c \<Longrightarrow> \<forall>x\<in>set xs. 0 \<le> Weight x \<Longrightarrow> best xs c = optimum xs c"
  using best_attained [of c xs] best_upper [of _ xs c]
  by (metis optimum_eqI)

lemma optimum_mono:
  assumes "0 \<le> c1" "c1 \<le> c2"
  shows "optimum xs c1 \<le> optimum xs c2"
  unfolding optimum_def
proof (rule Max_mono)
  show "set (map total_value (feasible xs c1)) \<subseteq> set (map total_value (feasible xs c2))"
    using assms(2) by (auto simp: feasible_def)
  have "[] \<in> set (feasible xs c1)" using assms(1) by (simp add: feasible_def)
  then show "set (map total_value (feasible xs c1)) \<noteq> {}" by auto
  show "finite (set (map total_value (feasible xs c2)))" by simp
qed

section \<open>The recurrence in machine arithmetic\<close>

lemma picksw_subseq: "subseq (picksw xs c) xs"
proof (induction xs arbitrary: c)
  case Nil
  show ?case by simp
next
  case (Cons x xs)
  show ?case
    using Cons [of c] Cons [of "c - Weight x"]
    by (simp del: tookw.simps add: subseq_Cons_right)
qed

lemma picksw_empty: "picksw xs c = [] \<Longrightarrow> 0 < c \<Longrightarrow> bestw xs c = 0"
proof (induction xs)
  case Nil
  show ?case by simp
next
  case (Cons x xs)
  from Cons.prems have nt: "\<not> tookw (x # xs) c" and "picksw xs c = []"
    by (auto simp del: tookw.simps split: if_splits)
  with Cons have "bestw xs c = 0" by simp
  with nt show ?case by (simp add: Let_def)
qed

lemma picksw_weight:
  "\<forall>x\<in>set xs. 0 \<le> Weight x \<Longrightarrow> 0 \<le> c \<Longrightarrow> total_weight (picksw xs c) \<le> c"
proof (induction xs arbitrary: c)
  case Nil
  then show ?case by simp
next
  case (Cons x xs)
  then have nn: "\<forall>y\<in>set xs. 0 \<le> Weight y" by simp
  show ?case
  proof (cases "c \<le> 0 \<or> \<not> tookw (x # xs) c")
    case True
    with Cons.IH [OF nn Cons.prems(2)] Cons.prems(2) show ?thesis
      by (auto simp del: tookw.simps)
  next
    case False
    then have tk: "tookw (x # xs) c" and pos: "\<not> c \<le> 0" by simp_all
    from tk have "Weight x \<le> c" by (rule tookw_fits)
    then have "0 \<le> c - Weight x" by simp
    from Cons.IH [OF nn this] tk pos show ?thesis by (simp del: tookw.simps)
  qed
qed

lemma picksw_value:
  "\<forall>x\<in>set xs. 0 < Weight x \<and> 0 \<le> Value x \<Longrightarrow> total_value xs < 2 ^ 63 \<Longrightarrow> 0 \<le> c \<Longrightarrow>
   total_value (picksw xs c) = bestw xs c"
proof (induction xs arbitrary: c)
  case Nil
  then show ?case by simp
next
  case (Cons x xs)
  then have el: "\<forall>y\<in>set xs. 0 < Weight y \<and> 0 \<le> Value y" and v: "0 \<le> Value x" by simp_all
  then have vnn: "\<forall>y\<in>set xs. 0 \<le> Value y" by simp
  have tv: "total_value xs < 2 ^ 63" using Cons.prems(2) v by simp
  show ?case
  proof (cases "c \<le> 0")
    case True
    with Cons.prems(3) have "c = 0" by simp
    moreover have "\<forall>y\<in>set (x # xs). 0 < Weight y" using Cons.prems(1) by simp
    then have "bestw (x # xs) 0 = 0" by (rule bestw_small)
    ultimately show ?thesis by simp
  next
    case pos: False
    show ?thesis
    proof (cases "tookw (x # xs) c")
      case False
      then have "bestw (x # xs) c = bestw xs c" by (simp add: Let_def)
      with Cons.IH [OF el tv Cons.prems(3)] pos False show ?thesis
        by (simp del: tookw.simps bestw.simps)
    next
      case True
      then have fits: "Weight x \<le> c" by (rule tookw_fits)
      then have c': "0 \<le> c - Weight x" by simp
      let ?p = "picksw xs (c - Weight x)"
      have ih: "total_value ?p = bestw xs (c - Weight x)" using el tv c' by (rule Cons.IH)
      have "total_value ?p \<le> total_value xs"
        using picksw_subseq vnn by (rule subseq_value_le)
      moreover have "0 \<le> total_value ?p"
        using subseq_set_subset [OF picksw_subseq, of xs "c - Weight x"] vnn
        by (intro total_value_nonneg) auto
      ultimately have "go_int (total_value ?p + Value x)"
        using Cons.prems(2) v by (simp add: go_int_def)
      then have wr: "wrap64 (bestw xs (c - Weight x) + Value x) = total_value ?p + Value x"
        unfolding ih [symmetric] by (rule wrap64_id)
      from True fits have "bestw (x # xs) c = wrap64 (bestw xs (c - Weight x) + Value x)"
        by (simp add: Let_def)
      with wr pos True show ?thesis by (simp del: tookw.simps bestw.simps)
    qed
  qed
qed

lemma bestw_best:
  "\<forall>x\<in>set xs. 0 \<le> Value x \<Longrightarrow> total_value xs < 2 ^ 63 \<Longrightarrow> bestw xs c = best xs c"
proof (induction xs arbitrary: c)
  case Nil
  show ?case by simp
next
  case (Cons x xs)
  then have vnn: "\<forall>y\<in>set xs. 0 \<le> Value y" and v: "0 \<le> Value x" by simp_all
  have tv: "total_value xs < 2 ^ 63" using Cons.prems(2) v by simp
  have ih: "bestw xs c' = best xs c'" for c' using vnn tv by (rule Cons.IH)
  have "0 \<le> best xs (c - Weight x) \<and> best xs (c - Weight x) \<le> total_value xs"
    using vnn by (rule best_bounds)
  with Cons.prems(2) v have "go_int (best xs (c - Weight x) + Value x)"
    by (simp add: go_int_def)
  then have "wrap64 (best xs (c - Weight x) + Value x) = best xs (c - Weight x) + Value x"
    by (rule wrap64_id)
  then show ?case by (simp add: ih Let_def)
qed

section \<open>What the selector returns\<close>

lemma eligible_set: "\<forall>x\<in>set (filter (eligible cap) orders). 0 < Weight x \<and> 0 < Value x \<and> Weight x \<le> cap"
  by (simp add: eligible_def)

lemma no_overflow_mono:
  assumes "c1 \<le> c2" "no_overflow c2 orders"
  shows "no_overflow c1 orders"
proof -
  let ?f2 = "filter (eligible c2) orders"
  have f: "filter (eligible c1) orders = filter (eligible c1) ?f2"
    using assms(1) by (auto simp: eligible_def intro: filter_cong)
  have nn: "\<forall>x\<in>set ?f2. 0 \<le> Weight x" "\<forall>x\<in>set ?f2. 0 \<le> Value x"
    by (auto simp: eligible_def)
  have "total_weight (filter (eligible c1) ?f2) \<le> total_weight ?f2"
    using nn(1) by (rule total_weight_filter_le)
  moreover have "total_value (filter (eligible c1) ?f2) \<le> total_value ?f2"
    using nn(2) by (rule total_value_filter_le)
  ultimately show ?thesis using assms(2) unfolding no_overflow_def f by linarith
qed

text \<open>
  The weight and the value of an order are read from \<^verbatim>\<open>INT UNSIGNED\<close> columns, which hold
  numbers below \<open>2 ^ 32\<close>: with fewer than \<open>2 ^ 31\<close> candidates no total overflows.
\<close>

lemma total_weight_bound: "\<forall>x\<in>set s. Weight x \<le> b \<Longrightarrow> total_weight s \<le> int (length s) * b"
  by (induction s) (auto simp: algebra_simps)

lemma total_value_bound: "\<forall>x\<in>set s. Value x \<le> b \<Longrightarrow> total_value s \<le> int (length s) * b"
  by (induction s) (auto simp: algebra_simps)

lemma no_overflow_unsigned_columns:
  assumes "\<forall>x\<in>set orders. Weight x < 2 ^ 32 \<and> Value x < 2 ^ 32" "length orders < 2 ^ 31"
  shows "no_overflow cap orders"
proof -
  let ?fl = "filter (eligible cap) orders"
  have "length ?fl \<le> length orders" by (rule length_filter_le)
  then have "length ?fl < 2 ^ 31" using assms(2) by (rule le_less_trans)
  then have len: "int (length ?fl) \<le> 2147483648" by simp
  have m: "int (length ?fl) * 4294967295 \<le> 2147483648 * 4294967295"
    using len by (rule mult_right_mono) simp
  have "\<forall>x\<in>set ?fl. Weight x \<le> 4294967295" "\<forall>x\<in>set ?fl. Value x \<le> 4294967295"
    using assms(1) by auto
  then have "total_weight ?fl \<le> int (length ?fl) * 4294967295"
    "total_value ?fl \<le> int (length ?fl) * 4294967295"
    by (simp_all only: total_weight_bound total_value_bound)
  with m have "total_weight ?fl < 9223372036854775808" "total_value ?fl < 9223372036854775808"
    by linarith+
  then show ?thesis by (simp add: no_overflow_def)
qed

lemma select_cases:
  assumes "selectOrdersForDelivery mem ctx orders robotID cap = Inr p"
  defines "fl \<equiv> filter (eligible cap) orders"
  shows "(p = empty_plan robotID \<and> (cap \<le> 0 \<or> fl = [])) \<or>
         (0 < cap \<and> fl \<noteq> [] \<and> wsum 0 (map Weight fl) \<le> cap \<and>
            p = \<lparr>RobotID = robotID, TotalWeight = wsum 0 (map Weight fl),
                 TotalValue = wsum 0 (map Value fl), Orders = fl\<rparr>) \<or>
         (0 < cap \<and> fl \<noteq> [] \<and> cap < wsum 0 (map Weight fl) \<and>
            p = \<lparr>RobotID = robotID, TotalWeight = wsum 0 (map Weight (picksw (rev fl) cap)),
                 TotalValue = bestw (rev fl) cap, Orders = picksw (rev fl) cap\<rparr>)"
  using assms(1) unfolding select_eq fl_def by (auto split: if_splits)

lemma select_subseq:
  assumes "selectOrdersForDelivery mem ctx orders robotID cap = Inr p"
  shows "subseq (Orders p) (filter (eligible cap) orders) \<or>
         subseq (rev (Orders p)) (filter (eligible cap) orders)"
proof -
  have "subseq (rev (picksw (rev fl) c)) fl" for fl c
    using subseq_rev [OF picksw_subseq [of "rev fl" c]] by simp
  with select_cases [OF assms] show ?thesis by (auto simp: empty_plan_def)
qed

lemma select_nonempty:
  assumes "selectOrdersForDelivery mem ctx orders robotID cap = Inr p" "Orders p = []"
  shows "p = empty_plan robotID"
  using select_cases [OF assms(1)] assms(2)
  by (auto simp: empty_plan_def picksw_empty)

lemma path_capacity:
  assumes "cap < wsum 0 xs"
  shows "cap < 2 ^ 63"
proof -
  have "go_int (wsum 0 xs)" by (rule go_int_wsum) (simp add: go_int_def)
  with assms show ?thesis by (simp add: go_int_def)
qed

lemma wsum_weight:
  assumes "\<forall>x\<in>set s. 0 \<le> Weight x" "total_weight s < 2 ^ 63"
  shows "wsum 0 (map Weight s) = total_weight s"
  using wsum_fits [of "map Weight s" 0] assms by (simp add: total_weight_def)

lemma wsum_value:
  assumes "\<forall>x\<in>set s. 0 \<le> Value x" "total_value s < 2 ^ 63"
  shows "wsum 0 (map Value s) = total_value s"
  using wsum_fits [of "map Value s" 0] assms by (simp add: total_value_def)

lemma picked_weight:
  assumes "0 < cap" "cap < 2 ^ 63" "\<forall>x\<in>set fl. 0 \<le> Weight x"
  shows "wsum 0 (map Weight (picksw (rev fl) cap)) = total_weight (picksw (rev fl) cap)"
    "total_weight (picksw (rev fl) cap) \<le> cap"
proof -
  let ?p = "picksw (rev fl) cap"
  have nn: "\<forall>x\<in>set (rev fl). 0 \<le> Weight x" using assms(3) by simp
  with assms(1) show le: "total_weight ?p \<le> cap" by (intro picksw_weight) simp_all
  have "\<forall>x\<in>set ?p. 0 \<le> Weight x"
    using subseq_set_subset [OF picksw_subseq, of "rev fl" cap] nn by auto
  moreover have "total_weight ?p < 2 ^ 63" using le assms(2) by simp
  ultimately show "wsum 0 (map Weight ?p) = total_weight ?p" by (rule wsum_weight)
qed

text \<open>
  When the weights that the pre-filter keeps add up to less than \<open>2 ^ 63\<close>, the plan's
  weight is the sum over its orders and is within the capacity.
\<close>

lemma select_weight:
  assumes sel: "selectOrdersForDelivery mem ctx orders robotID cap = Inr p"
    and fit: "total_weight (filter (eligible cap) orders) < 2 ^ 63"
  shows "TotalWeight p = total_weight (Orders p)" "0 \<le> cap \<Longrightarrow> TotalWeight p \<le> cap"
proof -
  let ?fl = "filter (eligible cap) orders"
  have nn: "\<forall>x\<in>set ?fl. 0 \<le> Weight x" by (auto simp: eligible_def)
  have fast: "wsum 0 (map Weight ?fl) = total_weight ?fl" using nn fit by (rule wsum_weight)
  have tab: "wsum 0 (map Weight (picksw (rev ?fl) cap)) = total_weight (picksw (rev ?fl) cap)"
    "total_weight (picksw (rev ?fl) cap) \<le> cap"
    if "0 < cap" "cap < wsum 0 (map Weight ?fl)"
    using that(1) path_capacity [OF that(2)] nn by (rule picked_weight)+
  from select_cases [OF sel] fast tab
  show "TotalWeight p = total_weight (Orders p)" by (auto simp: empty_plan_def)
  from select_cases [OF sel] fast tab
  show "TotalWeight p \<le> cap" if "0 \<le> cap" using that by (auto simp: empty_plan_def)
qed

text \<open>
  When the values that the pre-filter keeps add up to less than \<open>2 ^ 63\<close>, the plan's
  value is the sum over its orders.
\<close>

lemma select_value:
  assumes sel: "selectOrdersForDelivery mem ctx orders robotID cap = Inr p"
    and fit: "total_value (filter (eligible cap) orders) < 2 ^ 63"
  shows "TotalValue p = total_value (Orders p)"
proof -
  let ?fl = "filter (eligible cap) orders"
  have nn: "\<forall>x\<in>set ?fl. 0 \<le> Value x" by (auto simp: eligible_def)
  have fast: "wsum 0 (map Value ?fl) = total_value ?fl" using nn fit by (rule wsum_value)
  have el: "\<forall>x\<in>set (rev ?fl). 0 < Weight x \<and> 0 \<le> Value x" by (auto simp: eligible_def)
  have tab: "total_value (picksw (rev ?fl) cap) = bestw (rev ?fl) cap" if "0 < cap"
    using el _ _ by (rule picksw_value) (use fit that in simp_all)
  from select_cases [OF sel] fast tab show ?thesis by (auto simp: empty_plan_def)
qed

text \<open>
  When no total overflows, the three ways of returning a plan are those of the
  algorithm in exact arithmetic.
\<close>

lemma select_ideal:
  assumes sel: "selectOrdersForDelivery mem ctx orders robotID cap = Inr p"
    and fit: "no_overflow cap orders"
  defines "fl \<equiv> filter (eligible cap) orders"
  shows "(p = empty_plan robotID \<and> (cap \<le> 0 \<or> fl = [])) \<or>
         (0 < cap \<and> fl \<noteq> [] \<and> total_weight fl \<le> cap \<and>
            p = \<lparr>RobotID = robotID, TotalWeight = total_weight fl, TotalValue = total_value fl, Orders = fl\<rparr>) \<or>
         (0 < cap \<and> cap < total_weight fl \<and>
            (\<exists>picked. p = \<lparr>RobotID = robotID, TotalWeight = total_weight picked,
                              TotalValue = best (rev fl) cap, Orders = picked\<rparr> \<and>
               total_value picked = best (rev fl) cap \<and> total_weight picked \<le> cap \<and>
               subseq (rev picked) fl))"
proof -
  have wf: "total_weight fl < 2 ^ 63" and vf: "total_value fl < 2 ^ 63"
    using fit by (simp_all add: no_overflow_def fl_def)
  have nn: "\<forall>x\<in>set fl. 0 \<le> Weight x" "\<forall>x\<in>set fl. 0 \<le> Value x"
    by (auto simp: fl_def eligible_def)
  have tw: "wsum 0 (map Weight fl) = total_weight fl" using nn(1) wf by (rule wsum_weight)
  have tv: "wsum 0 (map Value fl) = total_value fl" using nn(2) vf by (rule wsum_value)
  have bb: "bestw (rev fl) cap = best (rev fl) cap"
    by (rule bestw_best) (use nn(2) vf in simp_all)
  from select_cases [OF sel] consider
      "p = empty_plan robotID" "cap \<le> 0 \<or> fl = []"
    | "0 < cap" "fl \<noteq> []" "total_weight fl \<le> cap"
      "p = \<lparr>RobotID = robotID, TotalWeight = total_weight fl, TotalValue = total_value fl, Orders = fl\<rparr>"
    | "0 < cap" "cap < total_weight fl"
      "p = \<lparr>RobotID = robotID, TotalWeight = wsum 0 (map Weight (picksw (rev fl) cap)),
            TotalValue = bestw (rev fl) cap, Orders = picksw (rev fl) cap\<rparr>"
    unfolding fl_def [symmetric] tw tv by blast
  then show ?thesis
  proof cases
    case 1
    then show ?thesis by simp
  next
    case 2
    then show ?thesis by simp
  next
    case 3
    let ?p = "picksw (rev fl) cap"
    have c63: "cap < 2 ^ 63" using 3(2) wf by simp
    have w: "wsum 0 (map Weight ?p) = total_weight ?p" "total_weight ?p \<le> cap"
      using 3(1) c63 nn(1) by (rule picked_weight)+
    have "total_weight (filter (eligible cap) orders) < 2 ^ 63"
      "total_value (filter (eligible cap) orders) < 2 ^ 63"
      using wf vf by (simp_all add: fl_def)
    from select_value [OF sel this(2)] 3(3) have v: "total_value ?p = best (rev fl) cap"
      by (simp add: bb)
    have s: "subseq (rev ?p) fl"
      using subseq_rev [OF picksw_subseq [of "rev fl" cap]] by simp
    have "p = \<lparr>RobotID = robotID, TotalWeight = total_weight ?p,
               TotalValue = best (rev fl) cap, Orders = ?p\<rparr>"
      using 3(3) w(1) bb by simp
    with v w(2) s 3(1,2) show ?thesis by blast
  qed
qed

lemma select_upper:
  assumes sel: "selectOrdersForDelivery mem ctx orders robotID cap = Inr p"
    and fit: "no_overflow cap orders"
    and s: "subseq s (filter (eligible cap) orders)" "total_weight s \<le> cap"
  shows "total_value s \<le> TotalValue p"
proof -
  let ?fl = "filter (eligible cap) orders"
  note el = eligible_set [of cap orders]
  from select_ideal [OF sel fit] consider
      "p = empty_plan robotID" "cap \<le> 0 \<or> ?fl = []"
    | "TotalValue p = total_value ?fl"
    | "0 < cap" "TotalValue p = best (rev ?fl) cap"
    by auto
  then show ?thesis
  proof cases
    case 1
    have "s = []"
    proof (cases "?fl = []")
      case True
      with s(1) show ?thesis by simp
    next
      case False
      with 1 have cap: "cap \<le> 0" by simp
      show ?thesis
      proof (cases s)
        case Nil
        then show ?thesis .
      next
        case (Cons y ys)
        have sub: "set s \<subseteq> set ?fl" using s(1) by (rule subseq_set_subset)
        with el have "\<forall>x\<in>set s. 0 \<le> Weight x" by fastforce
        then have "Weight y \<le> total_weight s" using Cons by (intro weight_le_total) simp_all
        moreover have "0 < Weight y" using sub el Cons by auto
        ultimately show ?thesis using s(2) cap by simp
      qed
    qed
    with 1 show ?thesis by (simp add: empty_plan_def)
  next
    case 2
    have "\<forall>x\<in>set ?fl. 0 \<le> Value x" using el by fastforce
    from subseq_value_le [OF s(1) this] 2 show ?thesis by simp
  next
    case 3
    have "\<forall>x\<in>set (rev ?fl). 0 \<le> Weight x" using el by fastforce
    from best_upper [OF subseq_rev [OF s(1)] this, of cap] s(2) 3 show ?thesis by simp
  qed
qed

lemma select_optimum:
  assumes sel: "selectOrdersForDelivery mem ctx orders robotID cap = Inr p" and cap: "0 \<le> cap"
    and fit: "no_overflow cap orders"
  shows "TotalValue p = optimum (filter (\<lambda>ord. 0 < Weight ord) orders) cap"
proof -
  let ?fl = "filter (eligible cap) orders" and ?hv = "filter (\<lambda>ord. 0 < Weight ord) orders"
  have fl: "?fl = filter (eligible cap) ?hv"
    by (auto simp: eligible_def intro: filter_cong)
  then have flsub: "subseq ?fl ?hv" by (metis subseq_filter_left)
  have fits: "total_weight ?fl < 2 ^ 63" "total_value ?fl < 2 ^ 63"
    using fit by (simp_all add: no_overflow_def)
  obtain s0 where s0: "subseq s0 ?fl" "total_weight s0 = TotalWeight p" "total_value s0 = TotalValue p"
    using select_subseq [OF sel] select_weight(1) [OF sel fits(1)] select_value [OF sel fits(2)]
    by (metis total_rev)
  have "optimum ?hv cap = TotalValue p"
  proof (rule optimum_eqI)
    show "subseq s0 ?hv" using s0(1) flsub by (rule subseq_order.trans)
    show "total_weight s0 \<le> cap" using s0(2) select_weight(2) [OF sel fits(1) cap] by simp
    show "total_value s0 = TotalValue p" by (rule s0(3))
  next
    fix s assume s: "subseq s ?hv" "total_weight s \<le> cap"
    let ?s' = "filter (eligible cap) s"
    have pos: "\<forall>x\<in>set s. 0 < Weight x"
      using subseq_set_subset [OF s(1)] by auto
    then have nn: "\<forall>x\<in>set s. 0 \<le> Weight x" by fastforce
    have "\<forall>x\<in>set s. \<not> eligible cap x \<longrightarrow> Value x \<le> 0"
    proof (intro ballI impI)
      fix x assume x: "x \<in> set s" "\<not> eligible cap x"
      have "Weight x \<le> cap" using weight_le_total [OF nn x(1)] s(2) by simp
      with x pos show "Value x \<le> 0" by (auto simp: eligible_def)
    qed
    then have "total_value s \<le> total_value ?s'" by (rule total_value_filter_ge)
    moreover have "total_weight ?s' \<le> cap"
      using total_weight_filter_le [OF nn, of "eligible cap"] s(2) by simp
    moreover have "subseq ?s' ?fl" using s(1) fl by (metis subseq_filter)
    ultimately show "total_value s \<le> TotalValue p"
      using select_upper [OF sel fit, of ?s'] by simp
  qed
  then show ?thesis by simp
qed

lemma select_value_nonneg:
  assumes "selectOrdersForDelivery mem ctx orders robotID cap = Inr p" "no_overflow cap orders"
  shows "0 \<le> TotalValue p"
proof -
  have "subseq [] (filter (eligible cap) orders)" by simp
  show ?thesis
  proof (cases "0 \<le> cap")
    case True
    with select_upper [OF assms, of "[]"] show ?thesis by simp
  next
    case False
    with select_cases [OF assms(1)] show ?thesis by (auto simp: empty_plan_def)
  qed
qed

lemma select_monotone:
  assumes "selectOrdersForDelivery mem1 ctx1 orders robotID1 c1 = Inr p1"
    and "selectOrdersForDelivery mem2 ctx2 orders robotID2 c2 = Inr p2" and "c1 \<le> c2"
    and "no_overflow c2 orders"
  shows "TotalValue p1 \<le> TotalValue p2"
proof (cases "0 \<le> c1")
  case True
  with assms(3) have "0 \<le> c2" by simp
  moreover have "no_overflow c1 orders" using assms(3,4) by (rule no_overflow_mono)
  ultimately show ?thesis using True assms by (simp add: select_optimum optimum_mono)
next
  case False
  with select_cases [OF assms(1)] have "TotalValue p1 = 0" by (auto simp: empty_plan_def)
  with select_value_nonneg [OF assms(2,4)] show ?thesis by simp
qed

text \<open>
  The result depends on the candidate list only through what the pre-filter keeps of it.
\<close>

lemma select_filter_cong:
  assumes "filter (eligible cap) orders1 = filter (eligible cap) orders2"
  shows "selectOrdersForDelivery mem ctx orders1 robotID cap =
         selectOrdersForDelivery mem ctx orders2 robotID cap"
  unfolding select_eq assms ..

text \<open>
  The signal is looked at on the table-filling path only, once the tables are made, and
  a call that finds it set returns the context's error; any other call returns what a
  call that is never cancelled returns.
\<close>

lemma select_Background:
  fixes orders :: "Order list" and cap :: int
  defines "fl \<equiv> filter (eligible cap) orders"
  shows "selectOrdersForDelivery mem ctx orders robotID cap =
     (if 0 < cap \<and> cap < wsum 0 (map Weight fl) \<and> mem (length fl + 1) (nat (cap + 1)) \<and>
         (\<exists>j. 1 \<le> j \<and> j \<le> length fl \<and> j mod 512 = 0 \<and> ctx j)
      then Inl ContextErr
      else selectOrdersForDelivery mem Background orders robotID cap)"
proof -
  have "fl \<noteq> []" if "cap < wsum 0 (map Weight fl)" "0 < cap"
    using that by auto
  then show ?thesis
    unfolding select_eq fl_def [symmetric] by (auto simp: Background_def)
qed

lemma select_Background_no_ContextErr:
  "selectOrdersForDelivery mem Background orders robotID cap \<noteq> Inl ContextErr"
  unfolding select_eq by (simp add: Background_def)

lemma example_select_5:
  "selectOrdersForDelivery Roomy Background example_orders ''r'' 5 =
     Inr \<lparr>RobotID = ''r'', TotalWeight = 5, TotalValue = 7,
          Orders = [\<lparr>OrderID = 2, Weight = 3, Value = 4\<rparr>, \<lparr>OrderID = 1, Weight = 2, Value = 3\<rparr>]\<rparr>"
  by code_simp

lemma example_select_9:
  "selectOrdersForDelivery Roomy Background example_orders ''r'' 9 =
     Inr \<lparr>RobotID = ''r'', TotalWeight = 9, TotalValue = 12,
          Orders = [\<lparr>OrderID = 3, Weight = 4, Value = 5\<rparr>, \<lparr>OrderID = 2, Weight = 3, Value = 4\<rparr>,
                    \<lparr>OrderID = 1, Weight = 2, Value = 3\<rparr>]\<rparr>"
  by code_simp

text \<open>
  Where the running total of the weights wraps around, the selector takes it for a total
  within the capacity and returns all that the pre-filter kept, without looking at the
  signal: 512 candidates of weight \<open>2 ^ 54\<close> weigh \<open>2 ^ 63\<close>, which wraps to \<open>- (2 ^ 63)\<close>.
\<close>

lemma example_wrapped_total:
  "selectOrdersForDelivery Roomy Cancelled
     (replicate 512 \<lparr>OrderID = 7, Weight = 18014398509481984, Value = 1\<rparr>) ''r'' 18014398509481984 =
   Inr \<lparr>RobotID = ''r'', TotalWeight = - 9223372036854775808, TotalValue = 512,
        Orders = replicate 512 \<lparr>OrderID = 7, Weight = 18014398509481984, Value = 1\<rparr>\<rparr>"
proof -
  let ?os = "replicate 512 \<lparr>OrderID = 7, Weight = 18014398509481984, Value = 1\<rparr>"
  have fl: "filter (eligible 18014398509481984) ?os = ?os" by (simp add: eligible_def)
  have tw: "wsum 0 (map Weight ?os) = - 9223372036854775808"
    unfolding wsum_wrap by (simp add: sum_list_replicate wrap64_def)
  have tv: "wsum 0 (map Value ?os) = 512"
    unfolding wsum_wrap by (simp add: sum_list_replicate wrap64_def)
  show ?thesis unfolding select_eq fl tw tv by simp
qed

text \<open>
  Where the runtime has no room for the tables, \<^verbatim>\<open>make\<close> panics, also in a call that is
  never cancelled: three candidates of weight \<open>2 ^ 61 + 1\<close> do not fit the capacity
  \<open>2 ^ 62\<close>, and a row of \<open>2 ^ 62 + 1\<close> cells is beyond the address space.
\<close>

lemma example_alloc_panic:
  "selectOrdersForDelivery AddressSpace Background
     [\<lparr>OrderID = 1, Weight = 2305843009213693953, Value = 1\<rparr>,
      \<lparr>OrderID = 2, Weight = 2305843009213693953, Value = 1\<rparr>,
      \<lparr>OrderID = 3, Weight = 2305843009213693953, Value = 1\<rparr>] ''r'' 4611686018427387904 =
   Inl AllocPanic"
  unfolding select_eq by (simp add: eligible_def wrap64_def AddressSpace_def)

lemma example_no_overflow: "no_overflow 5 example_orders" "no_overflow 9 example_orders"
  by (simp_all add: no_overflow_def example_orders_def eligible_def)

lemma example_wsum: "wsum 0 (replicate 512 1) = 512"
proof -
  have "wsum 0 (replicate 512 1) = 0 + sum_list (replicate 512 1)"
    by (rule wsum_fits) (simp_all add: sum_list_replicate)
  then show ?thesis by (simp add: sum_list_replicate)
qed

lemma example_prefilter:
  "prefilter 1 (replicate 512 \<lparr>OrderID = 7, Weight = 1, Value = 1\<rparr>) ([], 0, 0) =
     (replicate 512 \<lparr>OrderID = 7, Weight = 1, Value = 1\<rparr>, 512, 512)"
proof -
  let ?os = "replicate 512 \<lparr>OrderID = 7, Weight = 1, Value = 1\<rparr>"
  have fl: "filter (eligible 1) ?os = ?os" by (simp add: eligible_def)
  show ?thesis unfolding prefilter_eq fl by (simp add: example_wsum)
qed

lemma example_cancelled:
  "selectOrdersForDelivery Roomy Cancelled (replicate 512 \<lparr>OrderID = 7, Weight = 1, Value = 1\<rparr>) ''r'' 1 =
     Inl ContextErr"
proof -
  let ?os = "replicate 512 \<lparr>OrderID = 7, Weight = 1, Value = 1\<rparr>"
  have fl: "filter (eligible 1) ?os = ?os" by (simp add: eligible_def)
  have ex: "\<exists>j. 1 \<le> j \<and> j \<le> length ?os \<and> j mod 512 = 0 \<and> Cancelled j"
    by (rule exI [of _ 512]) (simp add: Cancelled_def)
  show ?thesis unfolding select_eq fl using ex by (simp add: Roomy_def example_wsum)
qed

section \<open>The ledger operations\<close>

lemma conditional_update_ok:
  assumes "exec_err f = None" "rows_err f = None"
  shows "UpdateStatusesIfCurrentStatus f orderIDs fromStatus newStatus db =
     (db\<lparr>orders_tbl :=
          map (\<lambda>r. if claimed orderIDs fromStatus r then r\<lparr>shipped_status := newStatus\<rparr> else r)
            (orders_tbl db)\<rparr>,
      Inr (rows_affected orderIDs fromStatus newStatus db))"
proof (cases "orderIDs = []")
  case True
  have "map (\<lambda>r. if claimed [] fromStatus r then r\<lparr>shipped_status := newStatus\<rparr> else r)
          (orders_tbl db) = orders_tbl db"
    by (simp add: claimed_def)
  with True show ?thesis
    by (simp add: UpdateStatusesIfCurrentStatus_def rows_affected_def claimed_def)
next
  case False
  with assms show ?thesis by (simp add: UpdateStatusesIfCurrentStatus_def Let_def)
qed

lemma example_shipping_orders:
  "GetShippingOrders no_faults example_db =
     Inr [\<lparr>OrderID = 1, Weight = 2, Value = 3\<rparr>, \<lparr>OrderID = 2, Weight = 3, Value = 4\<rparr>,
          \<lparr>OrderID = 4, Weight = 4, Value = 5\<rparr>]"
  by (simp add: GetShippingOrders_def no_faults_def example_db_def)

section \<open>The invariant of concurrent runs\<close>

lemma commit_phase_effect:
  "commit_phase f plan db = (db', r) \<Longrightarrow>
   db' = db \<or> db' = write_of (map OrderID (Orders plan)) db"
  by (auto simp: commit_phase_def ExecTx_def UpdateStatusesIfCurrentStatus_def write_of_def Let_def
      split: option.splits prod.splits sum.splits if_splits)

lemma transitioned_same [simp]: "transitioned db db = []"
proof -
  have "filter (\<lambda>(r, r'). shipped_status r \<noteq> shipped_status r') (zip xs xs) = []" for xs :: "order_row list"
    by (induction xs) auto
  then show ?thesis by (simp add: transitioned_def)
qed

lemma transitioned_write:
  "transitioned db (write_of ids db) = map order_id (filter (claimed ids ''shipping'') (orders_tbl db))"
proof -
  let ?upd = "\<lambda>r. if claimed ids ''shipping'' r then r\<lparr>shipped_status := ''delivering''\<rparr> else r"
  have "map (\<lambda>(r, r'). order_id r)
       (filter (\<lambda>(r, r'). shipped_status r \<noteq> shipped_status r') (zip xs (map ?upd xs))) =
     map order_id (filter (claimed ids ''shipping'') xs)" for xs
    by (induction xs) (auto simp: claimed_def)
  then show ?thesis by (simp add: transitioned_def write_of_def)
qed

lemma write_of_nth:
  "k < length (orders_tbl db) \<Longrightarrow>
   order_id (orders_tbl (write_of ids db) ! k) = order_id (orders_tbl db ! k) \<and>
   shipped_status (orders_tbl (write_of ids db) ! k) =
     (if claimed ids ''shipping'' (orders_tbl db ! k) then ''delivering''
      else shipped_status (orders_tbl db ! k))"
  by (simp add: write_of_def)

lemma write_of_length [simp]: "length (orders_tbl (write_of ids db)) = length (orders_tbl db)"
  by (simp add: write_of_def)

lemma write_step:
  fixes db0 db :: database and ids t :: "int list"
  defines "n \<equiv> length (orders_tbl db0)"
  defines "db' \<equiv> write_of ids db"
  defines "t' \<equiv> transitioned db db'"
  assumes len: "length (orders_tbl db) = n"
    and same_id: "\<forall>k<n. order_id (orders_tbl db ! k) = order_id (orders_tbl db0 ! k)"
    and mono: "\<forall>k<n. shipped_status (orders_tbl db ! k) \<noteq> shipped_status (orders_tbl db0 ! k) \<longrightarrow>
                 shipped_status (orders_tbl db ! k) = ''delivering''"
    and cnt: "length t = card (changed db0 db)"
    and safe: "\<forall>k<n. order_id (orders_tbl db ! k) \<in> set t \<longrightarrow>
                 shipped_status (orders_tbl db ! k) \<noteq> ''shipping''"
  shows "length (orders_tbl db') = n"
    and "\<forall>k<n. order_id (orders_tbl db' ! k) = order_id (orders_tbl db0 ! k)"
    and "\<forall>k<n. shipped_status (orders_tbl db' ! k) \<noteq> shipped_status (orders_tbl db0 ! k) \<longrightarrow>
                 shipped_status (orders_tbl db' ! k) = ''delivering''"
    and "length t' + length t = card (changed db0 db')"
    and "set t' \<inter> set t = {}"
    and "\<forall>k<n. order_id (orders_tbl db' ! k) \<in> set t' \<union> set t \<longrightarrow>
                 shipped_status (orders_tbl db' ! k) \<noteq> ''shipping''"
    and "distinct (map order_id (orders_tbl db0)) \<Longrightarrow> distinct t'"
proof -
  let ?rows = "orders_tbl db"
  let ?C = "claimed ids ''shipping''"
  let ?W = "{k. k < n \<and> ?C (?rows ! k)}"
  have nth: "\<And>k. k < n \<Longrightarrow> order_id (orders_tbl db' ! k) = order_id (?rows ! k)"
    "\<And>k. k < n \<Longrightarrow> shipped_status (orders_tbl db' ! k) =
        (if ?C (?rows ! k) then ''delivering'' else shipped_status (?rows ! k))"
    using write_of_nth [of _ db ids] len by (simp_all add: db'_def)
  have t': "t' = map order_id (filter ?C ?rows)"
    by (simp add: t'_def db'_def transitioned_write)
  have in_t': "\<exists>k<n. ?C (?rows ! k) \<and> order_id (?rows ! k) = i" if "i \<in> set t'" for i
  proof -
    from that obtain r where "r \<in> set ?rows" "?C r" "order_id r = i" by (auto simp: t')
    then show ?thesis using len by (auto simp: in_set_conv_nth)
  qed
  show "length (orders_tbl db') = n" using len by (simp add: db'_def)
  show "\<forall>k<n. order_id (orders_tbl db' ! k) = order_id (orders_tbl db0 ! k)"
    using nth(1) same_id by simp
  show "\<forall>k<n. shipped_status (orders_tbl db' ! k) \<noteq> shipped_status (orders_tbl db0 ! k) \<longrightarrow>
                 shipped_status (orders_tbl db' ! k) = ''delivering''"
    using nth(2) mono by simp
  have ch: "changed db0 db' = changed db0 db \<union> ?W"
  proof (rule set_eqI)
    fix k
    show "k \<in> changed db0 db' \<longleftrightarrow> k \<in> changed db0 db \<union> ?W"
    proof (cases "k < n")
      case False
      then show ?thesis by (simp add: changed_def n_def)
    next
      case True
      with nth(2) [OF True] mono show ?thesis
        by (auto simp: changed_def n_def claimed_def)
    qed
  qed
  have dj: "changed db0 db \<inter> ?W = {}"
    using mono by (auto simp: changed_def n_def claimed_def)
  have fin: "finite (changed db0 db)" "finite ?W" by (simp_all add: changed_def)
  have "length t' = card ?W"
    using len by (simp add: t' length_filter_conv_card)
  with cnt show "length t' + length t = card (changed db0 db')"
    unfolding ch using card_Un_disjoint [OF fin dj] by simp
  show "set t' \<inter> set t = {}"
  proof (rule ccontr)
    assume "set t' \<inter> set t \<noteq> {}"
    then obtain i where i: "i \<in> set t'" "i \<in> set t" by auto
    from in_t' [OF i(1)] obtain k where "k < n" "?C (?rows ! k)" "order_id (?rows ! k) = i" by auto
    with safe i(2) show False by (auto simp: claimed_def)
  qed
  show "\<forall>k<n. order_id (orders_tbl db' ! k) \<in> set t' \<union> set t \<longrightarrow>
                 shipped_status (orders_tbl db' ! k) \<noteq> ''shipping''"
  proof (intro allI impI)
    fix k assume k: "k < n" and mem: "order_id (orders_tbl db' ! k) \<in> set t' \<union> set t"
    show "shipped_status (orders_tbl db' ! k) \<noteq> ''shipping''"
    proof (cases "?C (?rows ! k)")
      case True
      with nth(2) [OF k] show ?thesis by simp
    next
      case False
      have "order_id (?rows ! k) \<in> set ids" if "order_id (?rows ! k) \<in> set t'"
        using in_t' [OF that] by (auto simp: claimed_def)
      with False mem safe k nth [OF k] show ?thesis by (auto simp: claimed_def)
    qed
  qed
  show "distinct t'" if "distinct (map order_id (orders_tbl db0))"
  proof -
    have "map order_id ?rows = map order_id (orders_tbl db0)"
      using len same_id by (auto simp: list_eq_iff_nth_eq n_def)
    with that have "distinct (map order_id ?rows)" by simp
    then show ?thesis unfolding t' by (rule distinct_map_filter)
  qed
qed

lemma conc_inv_init: "conc_inv db (Idle, Idle, db)"
  by (simp add: conc_inv_def changed_def)

lemma conc_inv_sym: "conc_inv db0 (sa, sb, db) \<Longrightarrow> conc_inv db0 (sb, sa, db)"
  by (auto simp: conc_inv_def add.commute Int_commute Un_commute)

lemma conc_inv_ids_cong:
  "conc_inv db0 (sa, sb, db) \<Longrightarrow> claimed_ids sa' = claimed_ids sa \<Longrightarrow> conc_inv db0 (sa', sb, db)"
  by (simp add: conc_inv_def)

lemma conc_inv_write:
  assumes inv: "conc_inv db0 (Selected plan, sb, db)"
  shows "conc_inv db0 (Returned r (transitioned db (write_of ids db)), sb, write_of ids db)"
proof -
  from inv have a: "length (orders_tbl db) = length (orders_tbl db0)"
    "\<forall>k<length (orders_tbl db0). order_id (orders_tbl db ! k) = order_id (orders_tbl db0 ! k)"
    "\<forall>k<length (orders_tbl db0).
        shipped_status (orders_tbl db ! k) \<noteq> shipped_status (orders_tbl db0 ! k) \<longrightarrow>
        shipped_status (orders_tbl db ! k) = ''delivering''"
    "length (claimed_ids sb) = card (changed db0 db)"
    "\<forall>k<length (orders_tbl db0). order_id (orders_tbl db ! k) \<in> set (claimed_ids sb) \<longrightarrow>
        shipped_status (orders_tbl db ! k) \<noteq> ''shipping''"
    "distinct (map order_id (orders_tbl db0)) \<longrightarrow> distinct (claimed_ids sb)"
    by (simp_all add: conc_inv_def)
  note w = write_step [OF a(1-5), of ids]
  show ?thesis
    unfolding conc_inv_def using w a(6) by simp
qed

lemma conc_inv_step:
  assumes inv: "conc_inv db0 (sa, sb, db)" and step: "call_step a sa db = (sa', db')"
  shows "conc_inv db0 (sa', sb, db')"
proof (cases sa)
  case Idle
  with step have "db' = db" "claimed_ids sa' = claimed_ids sa"
    by (auto split: sum.splits if_splits)
  with inv show ?thesis by (simp add: conc_inv_ids_cong)
next
  case (Selected plan)
  obtain r where c: "commit_phase (req_faults a) plan db = (db', r)"
    and sa': "sa' = Returned r (transitioned db db')"
    using step Selected by (auto split: prod.splits)
  from commit_phase_effect [OF c] show ?thesis
  proof
    assume "db' = db"
    with sa' inv Selected show ?thesis by (simp add: conc_inv_def)
  next
    assume "db' = write_of (map OrderID (Orders plan)) db"
    with sa' conc_inv_write [of db0 plan sb db] inv Selected show ?thesis by simp
  qed
next
  case (Returned r ids)
  with step inv show ?thesis by simp
qed

lemma conc_inv_run:
  "conc_inv db0 s \<Longrightarrow> conc_inv db0 (run a b sched s)"
proof (induction sched arbitrary: s)
  case Nil
  then show ?case by simp
next
  case (Cons who sched)
  obtain sa sb db where s: "s = (sa, sb, db)" by (cases s)
  show ?case
  proof (cases who)
    case First
    obtain sa' db' where st: "call_step a sa db = (sa', db')" by (cases "call_step a sa db")
    have "conc_inv db0 (sa', sb, db')"
      using conc_inv_step [OF _ st] Cons.prems s by simp
    from Cons.IH [OF this] First s st show ?thesis by simp
  next
    case Second
    obtain sb' db' where st: "call_step b sb db = (sb', db')" by (cases "call_step b sb db")
    have "conc_inv db0 (sb, sa, db)" using Cons.prems s by (simp add: conc_inv_sym)
    from conc_inv_step [OF this st] have "conc_inv db0 (sa, sb', db')" by (rule conc_inv_sym)
    from Cons.IH [OF this] Second s st show ?thesis by simp
  qed
qed

lemma logged_count_is_transitioned:
  assumes "commit_phase f plan db = (db', Inr p)" and "Orders plan \<noteq> []"
  shows "UpdateStatusesIfCurrentStatus f (map OrderID (Orders plan)) ''shipping'' ''delivering'' db =
           (db', Inr (int (length (transitioned db db'))))"
proof -
  let ?ids = "map OrderID (Orders plan)"
  from assms have ok: "exec_err f = None" "rows_err f = None" "tx_err f = None"
    by (auto simp: commit_phase_def ExecTx_def UpdateStatusesIfCurrentStatus_def Let_def
        split: option.splits prod.splits sum.splits if_splits)
  have u: "UpdateStatusesIfCurrentStatus f ?ids ''shipping'' ''delivering'' db =
      (write_of ?ids db, Inr (rows_affected ?ids ''shipping'' ''delivering'' db))"
    using conditional_update_ok [OF ok(1,2)] by (simp add: write_of_def)
  with assms ok have db': "db' = write_of ?ids db"
    by (auto simp: commit_phase_def ExecTx_def)
  have "filter (\<lambda>r. claimed ?ids ''shipping'' r \<and> shipped_status r \<noteq> ''delivering'') (orders_tbl db) =
        filter (claimed ?ids ''shipping'') (orders_tbl db)"
    by (rule filter_cong) (auto simp: claimed_def)
  then have "rows_affected ?ids ''shipping'' ''delivering'' db = int (length (transitioned db db'))"
    by (simp add: rows_affected_def db' transitioned_write)
  with u db' show ?thesis by simp
qed

lemma GenerateDeliveryPlan_is_two_steps:
  assumes "call_step req Idle db = (s1, db1)"
  shows "(\<exists>r. s1 = Returned r [] \<and> db1 = db \<and>
              GenerateDeliveryPlan (req_faults req) (req_mem req) others (req_ctx req)
                (req_robotID req) (req_capacity req) db = (db, r)) \<or>
         (\<exists>plan r db2. s1 = Selected plan \<and> db1 = db \<and>
              call_step req s1 (others db) = (Returned r (transitioned (others db) db2), db2) \<and>
              GenerateDeliveryPlan (req_faults req) (req_mem req) others (req_ctx req)
                (req_robotID req) (req_capacity req) db = (db2, r))"
  using assms
  by (auto simp: GenerateDeliveryPlan_def split: sum.splits if_splits prod.splits)

section \<open>Claims\<close>

text \<open>
  C1, amended. For every candidate list and every capacity \<open>\<ge> 0\<close> for which no total
  overflows (the weights, and the values, of the candidates that the pre-filter keeps add
  up to less than \<open>2 ^ 63\<close>), the value of the plan that the selector returns is the
  largest total value of any subset, of total weight at most the capacity, of the
  candidates of positive weight. When every candidate has positive weight, that is the
  optimum over all subsets of the candidates.
\<close>

theorem selector_value_is_optimum_over_positive_weights:
  assumes "selectOrdersForDelivery mem ctx orders robotID capacity = Inr plan" and "0 \<le> capacity"
    and "no_overflow capacity orders"
  shows "TotalValue plan = optimum (filter (\<lambda>ord. 0 < Weight ord) orders) capacity \<and>
         ((\<forall>ord\<in>set orders. 0 < Weight ord) \<longrightarrow> TotalValue plan = optimum orders capacity)"
proof -
  have "TotalValue plan = optimum (filter (\<lambda>ord. 0 < Weight ord) orders) capacity"
    using assms by (rule select_optimum)
  moreover have "filter (\<lambda>ord. 0 < Weight ord) orders = orders" if "\<forall>ord\<in>set orders. 0 < Weight ord"
    using that by simp
  ultimately show ?thesis by auto
qed

theorem selector_value_is_optimum_over_positive_weights_witness:
  "selectOrdersForDelivery Roomy Background example_orders ''r'' 5 =
     Inr \<lparr>RobotID = ''r'', TotalWeight = 5, TotalValue = 7,
          Orders = [\<lparr>OrderID = 2, Weight = 3, Value = 4\<rparr>, \<lparr>OrderID = 1, Weight = 2, Value = 3\<rparr>]\<rparr> \<and>
   (0::int) \<le> 5 \<and> no_overflow 5 example_orders \<and>
   filter (\<lambda>ord. 0 < Weight ord) example_orders = example_orders \<and>
   optimum (filter (\<lambda>ord. 0 < Weight ord) example_orders) 5 = 7 \<and> optimum example_orders 5 = 7"
proof -
  have pos: "\<forall>ord\<in>set example_orders. 0 < Weight ord" by (simp add: example_orders_def)
  then have fl: "filter (\<lambda>ord. 0 < Weight ord) example_orders = example_orders" by simp
  from selector_value_is_optimum_over_positive_weights [OF example_select_5 _ example_no_overflow(1)]
    pos fl example_select_5 example_no_overflow(1)
  show ?thesis by simp
qed

text \<open>
  C1 as stated, for candidates of non-negative weight, fails in three ways. A candidate
  of weight 0 and value 5 is discarded by the pre-filter, so the plan has value 0, while
  the subset that holds it weighs 0 and is worth 5. Of three candidates of weight 1 and
  value \<open>2 ^ 62\<close>, two fit the capacity 2 and are worth \<open>2 ^ 63\<close>; in the table the sum of
  two values wraps around to \<open>- (2 ^ 63)\<close>, so the plan holds one candidate and is worth
  \<open>2 ^ 62\<close>. Of two candidates of weight \<open>2 ^ 62\<close> and value 1, one fits the capacity
  \<open>2 ^ 62\<close>; the running total of the weights wraps around to \<open>- (2 ^ 63)\<close>, so the plan
  holds both and is worth 2.
\<close>

theorem selector_value_not_optimum_counterexample:
  "selectOrdersForDelivery Roomy Background [\<lparr>OrderID = 1, Weight = 0, Value = 5\<rparr>] ''r'' 1 =
     Inr \<lparr>RobotID = ''r'', TotalWeight = 0, TotalValue = 0, Orders = []\<rparr> \<and>
   optimum [\<lparr>OrderID = 1, Weight = 0, Value = 5\<rparr>] 1 = 5 \<and>
   go_int 4611686018427387904 \<and>
   selectOrdersForDelivery Roomy Background
     [\<lparr>OrderID = 1, Weight = 1, Value = 4611686018427387904\<rparr>,
      \<lparr>OrderID = 2, Weight = 1, Value = 4611686018427387904\<rparr>,
      \<lparr>OrderID = 3, Weight = 1, Value = 4611686018427387904\<rparr>] ''r'' 2 =
     Inr \<lparr>RobotID = ''r'', TotalWeight = 1, TotalValue = 4611686018427387904,
          Orders = [\<lparr>OrderID = 1, Weight = 1, Value = 4611686018427387904\<rparr>]\<rparr> \<and>
   optimum
     [\<lparr>OrderID = 1, Weight = 1, Value = 4611686018427387904\<rparr>,
      \<lparr>OrderID = 2, Weight = 1, Value = 4611686018427387904\<rparr>,
      \<lparr>OrderID = 3, Weight = 1, Value = 4611686018427387904\<rparr>] 2 = 9223372036854775808 \<and>
   selectOrdersForDelivery Roomy Background
     [\<lparr>OrderID = 1, Weight = 4611686018427387904, Value = 1\<rparr>,
      \<lparr>OrderID = 2, Weight = 4611686018427387904, Value = 1\<rparr>] ''r'' 4611686018427387904 =
     Inr \<lparr>RobotID = ''r'', TotalWeight = - 9223372036854775808, TotalValue = 2,
          Orders = [\<lparr>OrderID = 1, Weight = 4611686018427387904, Value = 1\<rparr>,
                    \<lparr>OrderID = 2, Weight = 4611686018427387904, Value = 1\<rparr>]\<rparr> \<and>
   optimum
     [\<lparr>OrderID = 1, Weight = 4611686018427387904, Value = 1\<rparr>,
      \<lparr>OrderID = 2, Weight = 4611686018427387904, Value = 1\<rparr>] 4611686018427387904 = 1"
proof -
  have "selectOrdersForDelivery Roomy Background
     [\<lparr>OrderID = 1, Weight = 1, Value = 4611686018427387904\<rparr>,
      \<lparr>OrderID = 2, Weight = 1, Value = 4611686018427387904\<rparr>,
      \<lparr>OrderID = 3, Weight = 1, Value = 4611686018427387904\<rparr>] ''r'' 2 =
     Inr \<lparr>RobotID = ''r'', TotalWeight = 1, TotalValue = 4611686018427387904,
          Orders = [\<lparr>OrderID = 1, Weight = 1, Value = 4611686018427387904\<rparr>]\<rparr>"
    by code_simp
  moreover have "selectOrdersForDelivery Roomy Background
     [\<lparr>OrderID = 1, Weight = 4611686018427387904, Value = 1\<rparr>,
      \<lparr>OrderID = 2, Weight = 4611686018427387904, Value = 1\<rparr>] ''r'' 4611686018427387904 =
     Inr \<lparr>RobotID = ''r'', TotalWeight = - 9223372036854775808, TotalValue = 2,
          Orders = [\<lparr>OrderID = 1, Weight = 4611686018427387904, Value = 1\<rparr>,
                    \<lparr>OrderID = 2, Weight = 4611686018427387904, Value = 1\<rparr>]\<rparr>"
    by code_simp
  ultimately show ?thesis
    by (simp add: selectOrdersForDelivery_def empty_plan_def optimum_def feasible_def go_int_def)
qed

text \<open>
  C2, amended. For every candidate list and every capacity \<open>\<ge> 0\<close>, the orders of the plan
  that the selector returns are taken from the candidates, each occurrence at most once
  (so with unique ids in, unique ids out). When the weights of the candidates that the
  pre-filter keeps add up to less than \<open>2 ^ 63\<close>, the plan's total weight is the sum over
  its orders and is at most the capacity; when their values add up to less than
  \<open>2 ^ 63\<close>, the plan's total value is the sum over its orders.
\<close>

theorem plan_is_well_formed:
  assumes "selectOrdersForDelivery mem ctx orders robotID capacity = Inr plan" and "0 \<le> capacity"
  shows "mset (Orders plan) \<subseteq># mset orders \<and>
         (distinct (map OrderID orders) \<longrightarrow> distinct (map OrderID (Orders plan))) \<and>
         (total_weight (filter (eligible capacity) orders) < 2 ^ 63 \<longrightarrow>
            TotalWeight plan = sum_list (map Weight (Orders plan)) \<and>
            TotalWeight plan \<le> capacity) \<and>
         (total_value (filter (eligible capacity) orders) < 2 ^ 63 \<longrightarrow>
            TotalValue plan = sum_list (map Value (Orders plan)))"
proof -
  let ?fl = "filter (eligible capacity) orders"
  obtain s where s: "subseq s ?fl" "s = Orders plan \<or> s = rev (Orders plan)"
    using select_subseq [OF assms(1)] by blast
  have sub: "subseq s orders" using s(1) subseq_filter_left by (rule subseq_order.trans)
  have ms: "mset s = mset (Orders plan)" using s(2) by auto
  have "mset (Orders plan) \<subseteq># mset orders"
    using subseq_mset_subset [OF sub] ms by simp
  moreover have "distinct (map OrderID (Orders plan))" if "distinct (map OrderID orders)"
  proof -
    have "distinct (map OrderID s)"
      using subseq_map [OF sub, of OrderID] that by (rule subseq_distinct)
    moreover have "distinct (map OrderID (rev (Orders plan))) = distinct (map OrderID (Orders plan))"
      by (simp only: rev_map [symmetric] distinct_rev)
    ultimately show ?thesis using s(2) by auto
  qed
  moreover have "TotalWeight plan = sum_list (map Weight (Orders plan)) \<and> TotalWeight plan \<le> capacity"
    if "total_weight ?fl < 2 ^ 63"
    using select_weight [OF assms(1) that] assms(2) by (simp add: total_weight_def)
  moreover have "TotalValue plan = sum_list (map Value (Orders plan))"
    if "total_value ?fl < 2 ^ 63"
    using select_value [OF assms(1) that] by (simp add: total_value_def)
  ultimately show ?thesis by blast
qed

theorem plan_is_well_formed_witness:
  "selectOrdersForDelivery Roomy Background example_orders ''r'' 9 =
     Inr \<lparr>RobotID = ''r'', TotalWeight = 9, TotalValue = 12,
          Orders = [\<lparr>OrderID = 3, Weight = 4, Value = 5\<rparr>, \<lparr>OrderID = 2, Weight = 3, Value = 4\<rparr>,
                    \<lparr>OrderID = 1, Weight = 2, Value = 3\<rparr>]\<rparr> \<and>
   (0::int) \<le> 9 \<and> distinct (map OrderID example_orders) \<and>
   total_weight (filter (eligible 9) example_orders) < 2 ^ 63 \<and>
   total_value (filter (eligible 9) example_orders) < 2 ^ 63 \<and>
   mset [\<lparr>OrderID = 3, Weight = 4, Value = 5\<rparr>, \<lparr>OrderID = 2, Weight = 3, Value = 4\<rparr>,
         \<lparr>OrderID = 1, Weight = 2, Value = 3\<rparr>] \<subseteq># mset example_orders \<and>
   distinct [3, 2, 1 :: int] \<and> (9::int) = 4 + 3 + 2 \<and> (12::int) = 5 + 4 + 3"
proof -
  have d: "distinct (map OrderID example_orders)" by (simp add: example_orders_def)
  have f: "total_weight (filter (eligible 9) example_orders) < 2 ^ 63"
    "total_value (filter (eligible 9) example_orders) < 2 ^ 63"
    using example_no_overflow(2) by (simp_all add: no_overflow_def)
  from plan_is_well_formed [OF example_select_9] d f example_select_9
  show ?thesis by simp
qed

text \<open>
  C2 as stated fails where a total overflows. Two candidates of weight 1 and value
  \<open>2 ^ 62\<close> fit the capacity 2: the plan holds both, and its total value is the wrapped
  running total \<open>- (2 ^ 63)\<close>, not the sum \<open>2 ^ 63\<close>. Of two candidates of weight
  \<open>2 ^ 62\<close>, the running total of the weights wraps around to \<open>- (2 ^ 63)\<close>, which is
  within the capacity \<open>2 ^ 62\<close>: the plan holds both, its total weight is
  \<open>- (2 ^ 63)\<close>, and its orders weigh \<open>2 ^ 63\<close>, more than the capacity.
\<close>

theorem plan_totals_wrap_counterexample:
  "go_int 4611686018427387904 \<and>
   selectOrdersForDelivery Roomy Background
     [\<lparr>OrderID = 1, Weight = 1, Value = 4611686018427387904\<rparr>,
      \<lparr>OrderID = 2, Weight = 1, Value = 4611686018427387904\<rparr>] ''r'' 2 =
     Inr \<lparr>RobotID = ''r'', TotalWeight = 2, TotalValue = - 9223372036854775808,
          Orders = [\<lparr>OrderID = 1, Weight = 1, Value = 4611686018427387904\<rparr>,
                    \<lparr>OrderID = 2, Weight = 1, Value = 4611686018427387904\<rparr>]\<rparr> \<and>
   sum_list (map Value [\<lparr>OrderID = 1, Weight = 1, Value = 4611686018427387904\<rparr>,
                        \<lparr>OrderID = 2, Weight = 1, Value = 4611686018427387904\<rparr>]) =
     9223372036854775808 \<and>
   selectOrdersForDelivery Roomy Background
     [\<lparr>OrderID = 1, Weight = 4611686018427387904, Value = 1\<rparr>,
      \<lparr>OrderID = 2, Weight = 4611686018427387904, Value = 1\<rparr>] ''r'' 4611686018427387904 =
     Inr \<lparr>RobotID = ''r'', TotalWeight = - 9223372036854775808, TotalValue = 2,
          Orders = [\<lparr>OrderID = 1, Weight = 4611686018427387904, Value = 1\<rparr>,
                    \<lparr>OrderID = 2, Weight = 4611686018427387904, Value = 1\<rparr>]\<rparr> \<and>
   sum_list (map Weight [\<lparr>OrderID = 1, Weight = 4611686018427387904, Value = 1\<rparr>,
                         \<lparr>OrderID = 2, Weight = 4611686018427387904, Value = 1\<rparr>]) =
     9223372036854775808 \<and>
   (4611686018427387904 :: int) < 9223372036854775808"
proof -
  have "selectOrdersForDelivery Roomy Background
     [\<lparr>OrderID = 1, Weight = 1, Value = 4611686018427387904\<rparr>,
      \<lparr>OrderID = 2, Weight = 1, Value = 4611686018427387904\<rparr>] ''r'' 2 =
     Inr \<lparr>RobotID = ''r'', TotalWeight = 2, TotalValue = - 9223372036854775808,
          Orders = [\<lparr>OrderID = 1, Weight = 1, Value = 4611686018427387904\<rparr>,
                    \<lparr>OrderID = 2, Weight = 1, Value = 4611686018427387904\<rparr>]\<rparr>"
    by code_simp
  moreover have "selectOrdersForDelivery Roomy Background
     [\<lparr>OrderID = 1, Weight = 4611686018427387904, Value = 1\<rparr>,
      \<lparr>OrderID = 2, Weight = 4611686018427387904, Value = 1\<rparr>] ''r'' 4611686018427387904 =
     Inr \<lparr>RobotID = ''r'', TotalWeight = - 9223372036854775808, TotalValue = 2,
          Orders = [\<lparr>OrderID = 1, Weight = 4611686018427387904, Value = 1\<rparr>,
                    \<lparr>OrderID = 2, Weight = 4611686018427387904, Value = 1\<rparr>]\<rparr>"
    by code_simp
  ultimately show ?thesis by (simp add: go_int_def)
qed

text \<open>
  C3. When the statement executes, \<^verbatim>\<open>UpdateStatusesIfCurrentStatus\<close> sets the status to
  the new one on exactly the rows whose id is requested and whose status is the expected
  one; every other row, and every other column, is left as it was. The count it returns
  is the number of rows whose status changed, which is the number of requested rows in
  the expected status whenever the two statuses differ.
\<close>

theorem conditional_transition_touches_only_matching_rows:
  assumes "exec_err f = None" and "rows_err f = None"
  shows "\<exists>db' n.
     UpdateStatusesIfCurrentStatus f orderIDs fromStatus newStatus db = (db', Inr n) \<and>
     products_tbl db' = products_tbl db \<and>
     length (orders_tbl db') = length (orders_tbl db) \<and>
     (\<forall>k<length (orders_tbl db).
        order_id (orders_tbl db' ! k) = order_id (orders_tbl db ! k) \<and>
        product_id (orders_tbl db' ! k) = product_id (orders_tbl db ! k) \<and>
        shipped_status (orders_tbl db' ! k) =
          (if order_id (orders_tbl db ! k) \<in> set orderIDs \<and>
              shipped_status (orders_tbl db ! k) = fromStatus
           then newStatus else shipped_status (orders_tbl db ! k))) \<and>
     n = int (card {k. k < length (orders_tbl db) \<and>
                       shipped_status (orders_tbl db' ! k) \<noteq> shipped_status (orders_tbl db ! k)}) \<and>
     (newStatus \<noteq> fromStatus \<longrightarrow>
        n = int (card {k. k < length (orders_tbl db) \<and>
                          order_id (orders_tbl db ! k) \<in> set orderIDs \<and>
                          shipped_status (orders_tbl db ! k) = fromStatus}))"
proof -
  let ?upd = "\<lambda>r. if claimed orderIDs fromStatus r then r\<lparr>shipped_status := newStatus\<rparr> else r"
  let ?db' = "db\<lparr>orders_tbl := map ?upd (orders_tbl db)\<rparr>"
  let ?n = "rows_affected orderIDs fromStatus newStatus db"
  have res: "UpdateStatusesIfCurrentStatus f orderIDs fromStatus newStatus db = (?db', Inr ?n)"
    using assms by (rule conditional_update_ok)
  have rows: "\<forall>k<length (orders_tbl db).
        order_id (orders_tbl ?db' ! k) = order_id (orders_tbl db ! k) \<and>
        product_id (orders_tbl ?db' ! k) = product_id (orders_tbl db ! k) \<and>
        shipped_status (orders_tbl ?db' ! k) =
          (if order_id (orders_tbl db ! k) \<in> set orderIDs \<and>
              shipped_status (orders_tbl db ! k) = fromStatus
           then newStatus else shipped_status (orders_tbl db ! k))"
    by (simp add: claimed_def)
  have "{k. k < length (orders_tbl db) \<and>
            shipped_status (orders_tbl ?db' ! k) \<noteq> shipped_status (orders_tbl db ! k)} =
        {k. k < length (orders_tbl db) \<and> claimed orderIDs fromStatus (orders_tbl db ! k) \<and>
            shipped_status (orders_tbl db ! k) \<noteq> newStatus}"
    by (auto simp: claimed_def split: if_splits)
  then have cnt: "?n = int (card {k. k < length (orders_tbl db) \<and>
            shipped_status (orders_tbl ?db' ! k) \<noteq> shipped_status (orders_tbl db ! k)})"
    by (simp only: rows_affected_def length_filter_conv_card)
  have "{k. k < length (orders_tbl db) \<and> claimed orderIDs fromStatus (orders_tbl db ! k) \<and>
            shipped_status (orders_tbl db ! k) \<noteq> newStatus} =
        {k. k < length (orders_tbl db) \<and> order_id (orders_tbl db ! k) \<in> set orderIDs \<and>
            shipped_status (orders_tbl db ! k) = fromStatus}"
    if "newStatus \<noteq> fromStatus"
    using that by (auto simp: claimed_def)
  then have cnt2: "newStatus \<noteq> fromStatus \<longrightarrow>
        ?n = int (card {k. k < length (orders_tbl db) \<and>
                          order_id (orders_tbl db ! k) \<in> set orderIDs \<and>
                          shipped_status (orders_tbl db ! k) = fromStatus})"
    by (simp only: rows_affected_def length_filter_conv_card) simp
  show ?thesis
    apply (rule exI [of _ ?db'])
    apply (rule exI [of _ ?n])
    apply (intro conjI)
         apply (rule res)
        apply simp
       apply simp
      apply (rule rows)
     apply (rule cnt)
    apply (rule cnt2)
    done
qed

theorem conditional_transition_touches_only_matching_rows_witness:
  "exec_err no_faults = None \<and> rows_err no_faults = None \<and>
   (\<exists>db' n. UpdateStatusesIfCurrentStatus no_faults [1, 2, 3] ''shipping'' ''delivering'' example_db
               = (db', Inr n) \<and>
      n = 2 \<and>
      map shipped_status (orders_tbl db') = [''delivering'', ''delivering'', ''completed'', ''shipping''])"
proof -
  have f: "exec_err no_faults = None" "rows_err no_faults = None" by (simp_all add: no_faults_def)
  have ev: "UpdateStatusesIfCurrentStatus no_faults [1, 2, 3] ''shipping'' ''delivering'' example_db =
      (example_db\<lparr>orders_tbl :=
         [\<lparr>order_id = 1, product_id = 10, shipped_status = ''delivering''\<rparr>,
          \<lparr>order_id = 2, product_id = 11, shipped_status = ''delivering''\<rparr>,
          \<lparr>order_id = 3, product_id = 10, shipped_status = ''completed''\<rparr>,
          \<lparr>order_id = 4, product_id = 12, shipped_status = ''shipping''\<rparr>]\<rparr>, Inr 2)"
    by (simp add: UpdateStatusesIfCurrentStatus_def no_faults_def example_db_def claimed_def
        rows_affected_def)
  from conditional_transition_touches_only_matching_rows [OF f, of "[1, 2, 3]" "''shipping''"
      "''delivering''" example_db] f ev
  show ?thesis by simp
qed

text \<open>
  C4. Two calls of \<^verbatim>\<open>GenerateDeliveryPlan\<close> whose database operations interleave in
  any order never both transition the same order: the ids that the two transactions
  moved to \<^verbatim>\<open>delivering\<close> are disjoint, and the two counts add up to the number of
  rows whose status changed, so no row is counted twice. (By
  \<open>logged_count_is_transitioned\<close> the number of ids a call transitioned is the count
  its update statement reported.)
\<close>

theorem concurrent_calls_never_claim_the_same_order:
  assumes "run a b sched (Idle, Idle, db) = (Returned ra ta, Returned rb tb, db')"
  shows "set ta \<inter> set tb = {} \<and>
         length ta + length tb =
           card {k. k < length (orders_tbl db) \<and>
                    shipped_status (orders_tbl db' ! k) \<noteq> shipped_status (orders_tbl db ! k)} \<and>
         (distinct (map order_id (orders_tbl db)) \<longrightarrow> distinct (ta @ tb))"
proof -
  have "conc_inv db (run a b sched (Idle, Idle, db))"
    using conc_inv_init by (rule conc_inv_run)
  with assms show ?thesis
    by (auto simp: conc_inv_def changed_def)
qed

theorem concurrent_calls_never_claim_the_same_order_witness:
  "run (example_request 5) (example_request 6) [First, Second, Second, First]
       (Idle, Idle, example_db) =
     (Returned (Inr \<lparr>RobotID = ''r'', TotalWeight = 5, TotalValue = 7,
          Orders = [\<lparr>OrderID = 2, Weight = 3, Value = 4\<rparr>, \<lparr>OrderID = 1, Weight = 2, Value = 3\<rparr>]\<rparr>) [2],
      Returned (Inr \<lparr>RobotID = ''r'', TotalWeight = 6, TotalValue = 8,
          Orders = [\<lparr>OrderID = 4, Weight = 4, Value = 5\<rparr>, \<lparr>OrderID = 1, Weight = 2, Value = 3\<rparr>]\<rparr>) [1, 4],
      example_db\<lparr>orders_tbl :=
         [\<lparr>order_id = 1, product_id = 10, shipped_status = ''delivering''\<rparr>,
          \<lparr>order_id = 2, product_id = 11, shipped_status = ''delivering''\<rparr>,
          \<lparr>order_id = 3, product_id = 10, shipped_status = ''completed''\<rparr>,
          \<lparr>order_id = 4, product_id = 12, shipped_status = ''delivering''\<rparr>]\<rparr>) \<and>
   set [2 :: int] \<inter> set [1, 4] = {} \<and> distinct ([2 :: int] @ [1, 4])"
proof -
  have ev: "run (example_request 5) (example_request 6) [First, Second, Second, First]
       (Idle, Idle, example_db) =
     (Returned (Inr \<lparr>RobotID = ''r'', TotalWeight = 5, TotalValue = 7,
          Orders = [\<lparr>OrderID = 2, Weight = 3, Value = 4\<rparr>, \<lparr>OrderID = 1, Weight = 2, Value = 3\<rparr>]\<rparr>) [2],
      Returned (Inr \<lparr>RobotID = ''r'', TotalWeight = 6, TotalValue = 8,
          Orders = [\<lparr>OrderID = 4, Weight = 4, Value = 5\<rparr>, \<lparr>OrderID = 1, Weight = 2, Value = 3\<rparr>]\<rparr>) [1, 4],
      example_db\<lparr>orders_tbl :=
         [\<lparr>order_id = 1, product_id = 10, shipped_status = ''delivering''\<rparr>,
          \<lparr>order_id = 2, product_id = 11, shipped_status = ''delivering''\<rparr>,
          \<lparr>order_id = 3, product_id = 10, shipped_status = ''completed''\<rparr>,
          \<lparr>order_id = 4, product_id = 12, shipped_status = ''delivering''\<rparr>]\<rparr>)"
    by code_simp
  have d: "distinct (map order_id (orders_tbl example_db))" by (simp add: example_db_def)
  from concurrent_calls_never_claim_the_same_order [OF ev] d ev show ?thesis by simp
qed

text \<open>
  C5. The selector looks at the cancellation signal only at items 512, 1024, ... of the
  filtered list, in the table-filling loop, which it enters when the capacity is positive,
  the running total of the filtered weights exceeds it and the tables have been made. When
  the signal is set at one of these items it returns the context's error and no plan;
  otherwise it returns exactly what a call that is never cancelled returns, which is
  never the context's error. At such an item the loop returns the error at once, whatever
  the tables hold.
\<close>

theorem cancellation_polled_every_512_items:
  assumes "prefilter cap orders ([], 0, 0) = (filtered, totalWeight, totalValue)"
  shows "selectOrdersForDelivery mem ctx orders robotID cap =
           (if 0 < cap \<and> cap < totalWeight \<and> mem (length filtered + 1) (nat (cap + 1)) \<and>
               (\<exists>i. 1 \<le> i \<and> i \<le> length filtered \<and> i mod 512 = 0 \<and> ctx i)
            then Inl ContextErr
            else selectOrdersForDelivery mem Background orders robotID cap) \<and>
         selectOrdersForDelivery mem Background orders robotID cap \<noteq> Inl ContextErr \<and>
         (\<forall>os c i t. i \<le> length os \<and> i mod 512 = 0 \<and> ctx i \<longrightarrow>
            fill_table ctx os c i t = Inl ContextErr)"
proof -
  from assms have "filtered = filter (eligible cap) orders"
    "totalWeight = wsum 0 (map Weight (filter (eligible cap) orders))"
    by (auto simp: prefilter_eq)
  then show ?thesis
    using select_Background [of mem ctx orders robotID cap]
      select_Background_no_ContextErr [of mem orders robotID cap]
    by (auto simp: fill_table_poll)
qed

theorem cancellation_polled_every_512_items_witness:
  "prefilter 1 (replicate 512 \<lparr>OrderID = 7, Weight = 1, Value = 1\<rparr>) ([], 0, 0) =
     (replicate 512 \<lparr>OrderID = 7, Weight = 1, Value = 1\<rparr>, 512, 512) \<and>
   selectOrdersForDelivery Roomy Cancelled (replicate 512 \<lparr>OrderID = 7, Weight = 1, Value = 1\<rparr>) ''r'' 1 =
     Inl ContextErr \<and>
   fill_table Cancelled (replicate 512 \<lparr>OrderID = 7, Weight = 1, Value = 1\<rparr>) 1 512
     (init_tables 513 2) = Inl ContextErr"
proof -
  let ?os = "replicate 512 \<lparr>OrderID = 7, Weight = 1, Value = 1\<rparr>"
  have ex: "\<exists>i. 1 \<le> i \<and> i \<le> length ?os \<and> i mod 512 = 0 \<and> Cancelled i"
    by (rule exI [of _ 512]) (simp add: Cancelled_def)
  have ft: "(512::nat) \<le> length ?os \<and> (512::nat) mod 512 = 0 \<and> Cancelled 512"
    by (simp add: Cancelled_def)
  from cancellation_polled_every_512_items [OF example_prefilter, of Roomy Cancelled "''r''"]
    ex ft example_prefilter
  show ?thesis by (simp add: Roomy_def)
qed

text \<open>
  C6, amended. Bad input is not rejected. A capacity \<open>\<le> 0\<close> gives the empty plan and
  no error. Candidates of weight \<open>\<le> 0\<close> or of value \<open>\<le> 0\<close> are skipped: the call
  returns what it returns for the list without them, and no such candidate, and none
  heavier than the capacity, is ever part of the plan.
\<close>

theorem invalid_input_is_skipped:
  "(capacity \<le> 0 \<longrightarrow>
      selectOrdersForDelivery mem ctx orders robotID capacity = Inr (empty_plan robotID)) \<and>
   selectOrdersForDelivery mem ctx orders robotID capacity =
     selectOrdersForDelivery mem ctx (filter (\<lambda>ord. 0 < Weight ord \<and> 0 < Value ord) orders)
       robotID capacity \<and>
   (selectOrdersForDelivery mem ctx orders robotID capacity = Inr plan \<longrightarrow>
      (\<forall>ord\<in>set (Orders plan). 0 < Weight ord \<and> 0 < Value ord \<and> Weight ord \<le> capacity))"
proof (intro conjI impI)
  assume "capacity \<le> 0"
  then show "selectOrdersForDelivery mem ctx orders robotID capacity = Inr (empty_plan robotID)"
    by (simp add: selectOrdersForDelivery_def)
next
  have "filter (eligible capacity) orders =
        filter (eligible capacity) (filter (\<lambda>ord. 0 < Weight ord \<and> 0 < Value ord) orders)"
    by (auto simp: eligible_def intro: filter_cong)
  then show "selectOrdersForDelivery mem ctx orders robotID capacity =
     selectOrdersForDelivery mem ctx (filter (\<lambda>ord. 0 < Weight ord \<and> 0 < Value ord) orders)
       robotID capacity"
    by (rule select_filter_cong)
next
  assume sel: "selectOrdersForDelivery mem ctx orders robotID capacity = Inr plan"
  have "set (Orders plan) \<subseteq> set (filter (eligible capacity) orders)"
    using select_subseq [OF sel] subseq_set_subset [of "Orders plan" "filter (eligible capacity) orders"]
      subseq_set_subset [of "rev (Orders plan)" "filter (eligible capacity) orders"]
    by (elim disjE) simp_all
  then show "\<forall>ord\<in>set (Orders plan). 0 < Weight ord \<and> 0 < Value ord \<and> Weight ord \<le> capacity"
    using eligible_set [of capacity orders] by blast
qed

theorem invalid_input_is_skipped_witness:
  "(- 1 :: int) \<le> 0 \<and>
   selectOrdersForDelivery Roomy Background example_orders ''r'' (- 1) = Inr (empty_plan ''r'') \<and>
   selectOrdersForDelivery Roomy Background example_orders ''r'' 5 =
     Inr \<lparr>RobotID = ''r'', TotalWeight = 5, TotalValue = 7,
          Orders = [\<lparr>OrderID = 2, Weight = 3, Value = 4\<rparr>, \<lparr>OrderID = 1, Weight = 2, Value = 3\<rparr>]\<rparr> \<and>
   list_all (\<lambda>ord. 0 < Weight ord \<and> 0 < Value ord \<and> Weight ord \<le> 5)
     [\<lparr>OrderID = 2, Weight = 3, Value = 4\<rparr>, \<lparr>OrderID = 1, Weight = 2, Value = 3\<rparr>] \<and>
   selectOrdersForDelivery Roomy Background
     (\<lparr>OrderID = 8, Weight = - 2, Value = 3\<rparr> # \<lparr>OrderID = 9, Weight = 1, Value = - 1\<rparr> #
      example_orders) ''r'' 5 =
   selectOrdersForDelivery Roomy Background example_orders ''r'' 5"
proof -
  let ?bad = "\<lparr>OrderID = 8, Weight = - 2, Value = 3\<rparr> # \<lparr>OrderID = 9, Weight = 1, Value = - 1\<rparr> #
       example_orders"
  let ?plan = "\<lparr>RobotID = ''r'', TotalWeight = 5, TotalValue = 7,
          Orders = [\<lparr>OrderID = 2, Weight = 3, Value = 4\<rparr>, \<lparr>OrderID = 1, Weight = 2, Value = 3\<rparr>]\<rparr>"
  have f: "filter (\<lambda>ord. 0 < Weight ord \<and> 0 < Value ord) ?bad = example_orders"
    by (simp add: example_orders_def)
  have "(- 1 :: int) \<le> 0 \<longrightarrow>
      selectOrdersForDelivery Roomy Background example_orders ''r'' (- 1) = Inr (empty_plan ''r'')"
    using invalid_input_is_skipped [of "- 1" Roomy Background example_orders "''r''" ?plan]
    by (rule conjunct1)
  then have a: "selectOrdersForDelivery Roomy Background example_orders ''r'' (- 1) =
      Inr (empty_plan ''r'')" by simp
  have "selectOrdersForDelivery Roomy Background example_orders ''r'' 5 = Inr ?plan \<longrightarrow>
      (\<forall>ord\<in>set (Orders ?plan). 0 < Weight ord \<and> 0 < Value ord \<and> Weight ord \<le> 5)"
    using invalid_input_is_skipped [of 5 Roomy Background example_orders "''r''" ?plan]
    by (rule conjunct2 [THEN conjunct2])
  with example_select_5
  have b: "list_all (\<lambda>ord. 0 < Weight ord \<and> 0 < Value ord \<and> Weight ord \<le> 5)
     [\<lparr>OrderID = 2, Weight = 3, Value = 4\<rparr>, \<lparr>OrderID = 1, Weight = 2, Value = 3\<rparr>]" by simp
  have "selectOrdersForDelivery Roomy Background ?bad ''r'' 5 =
      selectOrdersForDelivery Roomy Background
        (filter (\<lambda>ord. 0 < Weight ord \<and> 0 < Value ord) ?bad) ''r'' 5"
    using invalid_input_is_skipped [of 5 Roomy Background ?bad "''r''" ?plan]
    by (rule conjunct2 [THEN conjunct1])
  then have c: "selectOrdersForDelivery Roomy Background ?bad ''r'' 5 =
      selectOrdersForDelivery Roomy Background example_orders ''r'' 5"
    unfolding f .
  from a b c example_select_5 show ?thesis by (intro conjI) simp_all
qed

text \<open>
  C6 as stated fails: a negative capacity is answered with the empty plan, and a list that
  holds a candidate of negative weight and one of negative value is answered with a plan
  of the remaining candidate; neither call returns an error.
\<close>

theorem invalid_input_not_rejected_counterexample:
  "selectOrdersForDelivery Roomy Background example_orders ''r'' (- 1) = Inr (empty_plan ''r'') \<and>
   selectOrdersForDelivery Roomy Background
     [\<lparr>OrderID = 1, Weight = - 2, Value = 3\<rparr>, \<lparr>OrderID = 2, Weight = 1, Value = - 1\<rparr>,
      \<lparr>OrderID = 3, Weight = 1, Value = 1\<rparr>] ''r'' 5 =
     Inr \<lparr>RobotID = ''r'', TotalWeight = 1, TotalValue = 1,
          Orders = [\<lparr>OrderID = 3, Weight = 1, Value = 1\<rparr>]\<rparr>"
  by (simp add: selectOrdersForDelivery_def example_orders_def wrap64_def)

text \<open>
  C7. When the selector selects no order, \<^verbatim>\<open>GenerateDeliveryPlan\<close> returns the empty
  plan and leaves the ledger as it is; it does so whatever the database would have
  answered to a write and whatever other clients do meanwhile, so no write was issued.
\<close>

theorem empty_selection_issues_no_write:
  assumes "GetShippingOrders f db = Inr orders"
    and "selectOrdersForDelivery mem ctx orders robotID capacity = Inr plan"
    and "Orders plan = []"
  shows "GenerateDeliveryPlan f mem others ctx robotID capacity db = (db, Inr plan) \<and>
         plan = empty_plan robotID"
  using assms select_nonempty [OF assms(2,3)]
  by (simp add: GenerateDeliveryPlan_def plan_phase_def)

theorem empty_selection_issues_no_write_witness:
  "GetShippingOrders (all_faults\<lparr>select_err := None\<rparr>) example_db =
     Inr [\<lparr>OrderID = 1, Weight = 2, Value = 3\<rparr>, \<lparr>OrderID = 2, Weight = 3, Value = 4\<rparr>,
          \<lparr>OrderID = 4, Weight = 4, Value = 5\<rparr>] \<and>
   selectOrdersForDelivery Roomy Background
     [\<lparr>OrderID = 1, Weight = 2, Value = 3\<rparr>, \<lparr>OrderID = 2, Weight = 3, Value = 4\<rparr>,
      \<lparr>OrderID = 4, Weight = 4, Value = 5\<rparr>] ''r'' 1 = Inr (empty_plan ''r'') \<and>
   Orders (empty_plan ''r'') = [] \<and>
   GenerateDeliveryPlan (all_faults\<lparr>select_err := None\<rparr>) Roomy rival Background ''r'' 1 example_db =
     (example_db, Inr (empty_plan ''r''))"
proof -
  have g: "GetShippingOrders (all_faults\<lparr>select_err := None\<rparr>) example_db =
     Inr [\<lparr>OrderID = 1, Weight = 2, Value = 3\<rparr>, \<lparr>OrderID = 2, Weight = 3, Value = 4\<rparr>,
          \<lparr>OrderID = 4, Weight = 4, Value = 5\<rparr>]"
    by (simp add: GetShippingOrders_def all_faults_def example_db_def)
  have s: "selectOrdersForDelivery Roomy Background
     [\<lparr>OrderID = 1, Weight = 2, Value = 3\<rparr>, \<lparr>OrderID = 2, Weight = 3, Value = 4\<rparr>,
      \<lparr>OrderID = 4, Weight = 4, Value = 5\<rparr>] ''r'' 1 = Inr (empty_plan ''r'')"
    by (simp add: selectOrdersForDelivery_def)
  have e: "Orders (empty_plan ''r'') = []" by (simp add: empty_plan_def)
  from empty_selection_issues_no_write [OF g s e, of rival] g s e show ?thesis by simp
qed

text \<open>
  C8. When the conditional update transitions fewer rows than the plan has orders,
  \<^verbatim>\<open>GenerateDeliveryPlan\<close> still succeeds, and the plan it returns is the plan the
  selector computed from the rows it read, with all its orders and its totals.
\<close>

theorem shortfall_returns_the_computed_plan:
  assumes "GetShippingOrders f db = Inr orders"
    and "selectOrdersForDelivery mem ctx orders robotID capacity = Inr plan"
    and "tx_err f = None"
    and "UpdateStatusesIfCurrentStatus f (map OrderID (Orders plan)) ''shipping'' ''delivering''
           (others db) = (db', Inr rows)"
    and "rows < int (length (Orders plan))"
  shows "GenerateDeliveryPlan f mem others ctx robotID capacity db = (db', Inr plan)"
proof -
  have "Orders plan \<noteq> []"
  proof
    assume "Orders plan = []"
    with assms(4,5) show False by (simp add: UpdateStatusesIfCurrentStatus_def)
  qed
  with assms(1-4) show ?thesis
    by (simp add: GenerateDeliveryPlan_def plan_phase_def commit_phase_def ExecTx_def)
qed

theorem shortfall_returns_the_computed_plan_witness:
  "GetShippingOrders no_faults example_db =
     Inr [\<lparr>OrderID = 1, Weight = 2, Value = 3\<rparr>, \<lparr>OrderID = 2, Weight = 3, Value = 4\<rparr>,
          \<lparr>OrderID = 4, Weight = 4, Value = 5\<rparr>] \<and>
   selectOrdersForDelivery Roomy Background
     [\<lparr>OrderID = 1, Weight = 2, Value = 3\<rparr>, \<lparr>OrderID = 2, Weight = 3, Value = 4\<rparr>,
      \<lparr>OrderID = 4, Weight = 4, Value = 5\<rparr>] ''r'' 5 =
     Inr \<lparr>RobotID = ''r'', TotalWeight = 5, TotalValue = 7,
          Orders = [\<lparr>OrderID = 2, Weight = 3, Value = 4\<rparr>, \<lparr>OrderID = 1, Weight = 2, Value = 3\<rparr>]\<rparr> \<and>
   tx_err no_faults = None \<and>
   snd (UpdateStatusesIfCurrentStatus no_faults [2, 1] ''shipping'' ''delivering'' (rival example_db))
     = Inr 1 \<and>
   (1::int) < 2 \<and>
   snd (GenerateDeliveryPlan no_faults Roomy rival Background ''r'' 5 example_db) =
     Inr \<lparr>RobotID = ''r'', TotalWeight = 5, TotalValue = 7,
          Orders = [\<lparr>OrderID = 2, Weight = 3, Value = 4\<rparr>, \<lparr>OrderID = 1, Weight = 2, Value = 3\<rparr>]\<rparr> \<and>
   map shipped_status (orders_tbl (fst (GenerateDeliveryPlan no_faults Roomy rival Background ''r'' 5 example_db)))
     = [''delivering'', ''delivering'', ''completed'', ''shipping'']"
proof -
  let ?plan = "\<lparr>RobotID = ''r'', TotalWeight = 5, TotalValue = 7,
          Orders = [\<lparr>OrderID = 2, Weight = 3, Value = 4\<rparr>, \<lparr>OrderID = 1, Weight = 2, Value = 3\<rparr>]\<rparr>"
  let ?db' = "example_db\<lparr>orders_tbl :=
         [\<lparr>order_id = 1, product_id = 10, shipped_status = ''delivering''\<rparr>,
          \<lparr>order_id = 2, product_id = 11, shipped_status = ''delivering''\<rparr>,
          \<lparr>order_id = 3, product_id = 10, shipped_status = ''completed''\<rparr>,
          \<lparr>order_id = 4, product_id = 12, shipped_status = ''shipping''\<rparr>]\<rparr>"
  have s: "selectOrdersForDelivery Roomy Background
     [\<lparr>OrderID = 1, Weight = 2, Value = 3\<rparr>, \<lparr>OrderID = 2, Weight = 3, Value = 4\<rparr>,
      \<lparr>OrderID = 4, Weight = 4, Value = 5\<rparr>] ''r'' 5 = Inr ?plan"
    by code_simp
  have t: "tx_err no_faults = None" by (simp add: no_faults_def)
  have u: "UpdateStatusesIfCurrentStatus no_faults (map OrderID (Orders ?plan)) ''shipping'' ''delivering''
      (rival example_db) = (?db', Inr 1)"
    by (simp add: UpdateStatusesIfCurrentStatus_def no_faults_def example_db_def claimed_def
        rows_affected_def rival_def UpdateOrderStatus_def UpdateStatuses_def)
  have l: "1 < int (length (Orders ?plan))" by simp
  from shortfall_returns_the_computed_plan [where others = rival, OF example_shipping_orders s t u l]
    example_shipping_orders s t u
  show ?thesis by simp
qed

text \<open>
  C9, amended. For a fixed candidate list and two capacities \<open>c1 \<le> c2\<close> such that no
  total overflows at \<open>c2\<close>, the plan returned for \<open>c2\<close> has at least the total value of
  the plan returned for \<open>c1\<close>.
\<close>

theorem larger_capacity_never_decreases_value:
  assumes "selectOrdersForDelivery mem1 ctx1 orders robotID1 c1 = Inr plan1"
    and "selectOrdersForDelivery mem2 ctx2 orders robotID2 c2 = Inr plan2"
    and "c1 \<le> c2" and "no_overflow c2 orders"
  shows "TotalValue plan1 \<le> TotalValue plan2"
  using assms by (rule select_monotone)

theorem larger_capacity_never_decreases_value_witness:
  "selectOrdersForDelivery Roomy Background example_orders ''r'' 5 =
     Inr \<lparr>RobotID = ''r'', TotalWeight = 5, TotalValue = 7,
          Orders = [\<lparr>OrderID = 2, Weight = 3, Value = 4\<rparr>, \<lparr>OrderID = 1, Weight = 2, Value = 3\<rparr>]\<rparr> \<and>
   selectOrdersForDelivery Roomy Background example_orders ''r'' 9 =
     Inr \<lparr>RobotID = ''r'', TotalWeight = 9, TotalValue = 12,
          Orders = [\<lparr>OrderID = 3, Weight = 4, Value = 5\<rparr>, \<lparr>OrderID = 2, Weight = 3, Value = 4\<rparr>,
                    \<lparr>OrderID = 1, Weight = 2, Value = 3\<rparr>]\<rparr> \<and>
   (5::int) \<le> 9 \<and> no_overflow 9 example_orders \<and> (7::int) \<le> 12"
  using larger_capacity_never_decreases_value [OF example_select_5 example_select_9 _
      example_no_overflow(2)]
    example_select_5 example_select_9 example_no_overflow(2) by simp

text \<open>
  C9 as stated fails where a total overflows. Of two candidates of weight 1 and value
  \<open>2 ^ 62\<close>, the capacity 1 takes one, worth \<open>2 ^ 62\<close>; the capacity 2 takes both, and the
  plan's total value is the wrapped running total \<open>- (2 ^ 63)\<close>.
\<close>

theorem larger_capacity_decreases_value_counterexample:
  "go_int 4611686018427387904 \<and>
   selectOrdersForDelivery Roomy Background
     [\<lparr>OrderID = 1, Weight = 1, Value = 4611686018427387904\<rparr>,
      \<lparr>OrderID = 2, Weight = 1, Value = 4611686018427387904\<rparr>] ''r'' 1 =
     Inr \<lparr>RobotID = ''r'', TotalWeight = 1, TotalValue = 4611686018427387904,
          Orders = [\<lparr>OrderID = 1, Weight = 1, Value = 4611686018427387904\<rparr>]\<rparr> \<and>
   selectOrdersForDelivery Roomy Background
     [\<lparr>OrderID = 1, Weight = 1, Value = 4611686018427387904\<rparr>,
      \<lparr>OrderID = 2, Weight = 1, Value = 4611686018427387904\<rparr>] ''r'' 2 =
     Inr \<lparr>RobotID = ''r'', TotalWeight = 2, TotalValue = - 9223372036854775808,
          Orders = [\<lparr>OrderID = 1, Weight = 1, Value = 4611686018427387904\<rparr>,
                    \<lparr>OrderID = 2, Weight = 1, Value = 4611686018427387904\<rparr>]\<rparr> \<and>
   (1::int) \<le> 2 \<and> (- 9223372036854775808 :: int) < 4611686018427387904"
proof -
  have "selectOrdersForDelivery Roomy Background
     [\<lparr>OrderID = 1, Weight = 1, Value = 4611686018427387904\<rparr>,
      \<lparr>OrderID = 2, Weight = 1, Value = 4611686018427387904\<rparr>] ''r'' 1 =
     Inr \<lparr>RobotID = ''r'', TotalWeight = 1, TotalValue = 4611686018427387904,
          Orders = [\<lparr>OrderID = 1, Weight = 1, Value = 4611686018427387904\<rparr>]\<rparr>"
    by code_simp
  moreover have "selectOrdersForDelivery Roomy Background
     [\<lparr>OrderID = 1, Weight = 1, Value = 4611686018427387904\<rparr>,
      \<lparr>OrderID = 2, Weight = 1, Value = 4611686018427387904\<rparr>] ''r'' 2 =
     Inr \<lparr>RobotID = ''r'', TotalWeight = 2, TotalValue = - 9223372036854775808,
          Orders = [\<lparr>OrderID = 1, Weight = 1, Value = 4611686018427387904\<rparr>,
                    \<lparr>OrderID = 2, Weight = 1, Value = 4611686018427387904\<rparr>]\<rparr>"
    by code_simp
  ultimately show ?thesis by (simp add: go_int_def)
qed

text \<open>
  C10. For an empty list of ids, \<^verbatim>\<open>UpdateStatuses\<close> returns \<^verbatim>\<open>nil\<close> and
  \<^verbatim>\<open>UpdateStatusesIfCurrentStatus\<close> returns the count 0 and \<^verbatim>\<open>nil\<close>; the ledger is
  unchanged, and the answer does not depend on what the database would have answered to
  a statement, so none was executed.
\<close>

theorem empty_id_list_executes_no_statement:
  "UpdateStatuses f [] newStatus db = (db, None) \<and>
   UpdateStatusesIfCurrentStatus f [] fromStatus newStatus db = (db, Inr 0)"
  by (simp add: UpdateStatuses_def UpdateStatusesIfCurrentStatus_def)

end
